theory Spec2Isabelle
  imports Complex_Main
begin

section \<open>The WebSocket service of the dashboard front end\<close>

text \<open>
  A shallow embedding of the class \<^verbatim>\<open>WebSocketService\<close> (\<^verbatim>\<open>websocket.service.ts\<close>).
  The private fields of the class are the first block of the record below. The second
  block is the part of the browser the class talks to: the \<^verbatim>\<open>WebSocket\<close> objects it has
  constructed, the timers it has armed with \<^verbatim>\<open>setTimeout\<close>/\<^verbatim>\<open>setInterval\<close>, the promises
  it has handed out, and a log of the collaborator callbacks it has invoked.

  Everything runs on one event loop, so a run of the program is a sequence of events:
  calls of public methods, transport callbacks and timer callbacks, each executed to
  completion. \<^verbatim>\<open>Date.now()\<close> and \<^verbatim>\<open>Math.random()\<close> are parameters of the events that read
  them. Numbers are JavaScript doubles in the source; delays are modelled over the reals
  with \<^verbatim>\<open>Math.random()\<close> a real in \<open>[0, 1)\<close>, so that rounding is not modelled.

  Left out, because no field of the class depends on them: the console output, and the
  URL that \<^verbatim>\<open>connect\<close> builds from the page location and the stored token.
\<close>

subsection \<open>Data\<close>

datatype WSState = Idle | Connecting | Connected | Reconnecting | Disconnected

datatype ready_state = CONNECTING | OPEN | CLOSING | CLOSED

datatype json = JNull | JBool bool | JNum int | JStr string
  | JArr "json list" | JObj "(string \<times> json) list"

text \<open>A queued message is the object \<^verbatim>\<open>{ type: event, data }\<close>.\<close>

type_synonym message = "string \<times> json"

text \<open>
  What \<^verbatim>\<open>socket.send\<close> is given: \<^verbatim>\<open>JSON.stringify\<close> of a message, or of the heartbeat
  probe \<^verbatim>\<open>{ type: "ping", ts }\<close>.
\<close>

datatype out_frame = Frame message | Ping nat

text \<open>
  What \<^verbatim>\<open>onmessage\<close> receives. \<open>NonJson\<close> is a text on which the \<^verbatim>\<open>try\<close> block throws
  before it dispatches: \<^verbatim>\<open>JSON.parse\<close> rejects it, or yields \<^verbatim>\<open>null\<close>, whose \<^verbatim>\<open>type\<close>
  cannot be read. \<open>Parsed t msg\<close> is a parsed message \<open>msg\<close> with \<open>t\<close> its \<^verbatim>\<open>type\<close>
  property, \<open>None\<close> when the property is absent. The wire format declares \<^verbatim>\<open>type\<close> a
  string; other values of the property are not modelled.
\<close>

datatype inbound = NonJson string | Parsed "string option" json

datatype conn_event =
    StatusConnected
  | StatusDisconnected string
  | StatusError string
  | StatusFailed

text \<open>
  The argument of a listener: a \<^verbatim>\<open>connection\<close> status object, an inbound message, or
  the wrapper \<^verbatim>\<open>{ event, data }\<close> that the \<^verbatim>\<open>"*"\<close> channel receives.
\<close>

datatype payload = Conn conn_event | Msg json | Wrapped string payload

text \<open>
  Listeners are compared by identity. \<open>Ext i\<close> is a callback of a collaborator, opaque to
  the service: invoking it is recorded in \<open>calls\<close>, and it is assumed not to call back
  into the service before it returns. \<open>WaitHandler p t\<close> is the closure \<^verbatim>\<open>handler\<close> of
  the \<^verbatim>\<open>waitForConnection\<close> call that created promise \<open>p\<close> and timer \<open>t\<close>.
  \<open>Once w ev cb\<close> is the closure \<^verbatim>\<open>wrapper\<close> created by the \<open>w\<close>-th call of \<^verbatim>\<open>once\<close>.
\<close>

datatype listener = Ext nat | WaitHandler nat nat | Once nat string listener

datatype timer =
    ReconnectTimer real
  | HeartbeatInterval nat
  | PongDeadline nat
  | WaitTimeout nat nat

datatype error = InvalidStateError

record WebSocket =
  readyState :: ready_state
  sent :: "out_frame list"

record WebSocketService =
  socket :: "nat option"
  listeners :: "string \<rightharpoonup> listener list"
  reconnectAttempts :: nat
  maxReconnectAttempts :: nat
  baseReconnectDelay :: real
  manualClose :: bool
  heartbeatIntervalMs :: nat
  heartbeatTimeoutMs :: nat
  heartbeatTimer :: "nat option"
  pongTimeout :: "nat option"
  messageQueue :: "message list"
  maxQueueSize :: nat
  state :: WSState
  lastConnectedAt :: "nat option"
  lastDisconnectedAt :: "nat option"
  sockets :: "WebSocket list"
  timers :: "(nat \<times> timer) list"
  nextTimer :: nat
  promises :: "nat \<rightharpoonup> bool"
  nextPromise :: nat
  nextWrapper :: nat
  calls :: "(nat \<times> payload) list"

text \<open>
  \<open>socket s = Some k\<close> says that \<^verbatim>\<open>this.socket\<close> is the \<open>k\<close>-th \<^verbatim>\<open>WebSocket\<close> the service
  has constructed; \<open>None\<close> is \<^verbatim>\<open>null\<close>. \<open>heartbeatTimer\<close> and \<open>pongTimeout\<close> hold a timer
  identifier or \<^verbatim>\<open>null\<close>; identifiers start at 1, as in a browser, so that a stored
  identifier is truthy. The field initialisers of the class:
\<close>

definition init :: WebSocketService where
  "init = \<lparr> socket = None, listeners = Map.empty, reconnectAttempts = 0,
     maxReconnectAttempts = 8, baseReconnectDelay = 1000, manualClose = False,
     heartbeatIntervalMs = 15000, heartbeatTimeoutMs = 12000,
     heartbeatTimer = None, pongTimeout = None,
     messageQueue = [], maxQueueSize = 100, state = Idle,
     lastConnectedAt = None, lastDisconnectedAt = None,
     sockets = [], timers = [], nextTimer = 1,
     promises = Map.empty, nextPromise = 0, nextWrapper = 0, calls = [] \<rparr>"

subsection \<open>The browser: transports, timers, promises\<close>

definition ready :: "WebSocketService \<Rightarrow> nat \<Rightarrow> ready_state option" where
  "ready s k = (if k < length (sockets s) then Some (readyState (sockets s ! k)) else None)"

definition sent_on :: "WebSocketService \<Rightarrow> nat \<Rightarrow> out_frame list" where
  "sent_on s k = (if k < length (sockets s) then sent (sockets s ! k) else [])"

definition set_ready :: "nat \<Rightarrow> ready_state \<Rightarrow> WebSocketService \<Rightarrow> WebSocketService" where
  "set_ready k r s = s\<lparr>sockets := (sockets s)[k := (sockets s ! k)\<lparr>readyState := r\<rparr>]\<rparr>"

text \<open>
  \<^verbatim>\<open>WebSocket.send\<close> throws \<^verbatim>\<open>InvalidStateError\<close> while the socket is still connecting,
  transmits when it is open, and drops the data when it is closing or closed.
\<close>

definition transmit :: "nat \<Rightarrow> out_frame list \<Rightarrow> WebSocketService \<Rightarrow> WebSocketService" where
  "transmit k fs s = s\<lparr>sockets := (sockets s)[k := (sockets s ! k)\<lparr>sent := sent (sockets s ! k) @ fs\<rparr>]\<rparr>"

definition socket_send :: "nat \<Rightarrow> out_frame \<Rightarrow> WebSocketService \<Rightarrow> error + WebSocketService" where
  "socket_send k f s =
     (case ready s k of
        Some CONNECTING \<Rightarrow> Inl InvalidStateError
      | Some OPEN \<Rightarrow> Inr (transmit k [f] s)
      | _ \<Rightarrow> Inr s)"

text \<open>
  \<^verbatim>\<open>WebSocket.close\<close> starts the closing handshake and returns; the \<^verbatim>\<open>close\<close> event is
  delivered later, as an event of its own.
\<close>

definition socket_close :: "nat \<Rightarrow> WebSocketService \<Rightarrow> WebSocketService" where
  "socket_close k s =
     (case ready s k of
        Some CONNECTING \<Rightarrow> set_ready k CLOSING s
      | Some OPEN \<Rightarrow> set_ready k CLOSING s
      | _ \<Rightarrow> s)"

definition setTimer :: "timer \<Rightarrow> WebSocketService \<Rightarrow> WebSocketService" where
  "setTimer t s = s\<lparr>timers := timers s @ [(nextTimer s, t)], nextTimer := nextTimer s + 1\<rparr>"

definition clearTimer :: "nat \<Rightarrow> WebSocketService \<Rightarrow> WebSocketService" where
  "clearTimer i s = s\<lparr>timers := filter (\<lambda>x. fst x \<noteq> i) (timers s)\<rparr>"

text \<open>A promise is settled by the first call of its \<^verbatim>\<open>resolve\<close>; later calls do nothing.\<close>

definition resolve :: "nat \<Rightarrow> bool \<Rightarrow> WebSocketService \<Rightarrow> WebSocketService" where
  "resolve p v s = (if promises s p = None then s\<lparr>promises := (promises s)(p \<mapsto> v)\<rparr> else s)"

definition is_reconnect :: "timer \<Rightarrow> bool" where
  "is_reconnect t = (case t of ReconnectTimer d \<Rightarrow> True | _ \<Rightarrow> False)"

definition reconnect_timers :: "WebSocketService \<Rightarrow> (nat \<times> timer) list" where
  "reconnect_timers s = filter (\<lambda>x. is_reconnect (snd x)) (timers s)"

definition live_sockets :: "WebSocketService \<Rightarrow> nat" where
  "live_sockets s = length (filter (\<lambda>w. readyState w \<noteq> CLOSED) (sockets s))"

subsection \<open>Listener management\<close>

definition channel :: "WebSocketService \<Rightarrow> string \<Rightarrow> listener list" where
  "channel s ev = (case listeners s ev of None \<Rightarrow> [] | Some cbs \<Rightarrow> cbs)"

definition listener_count :: "WebSocketService \<Rightarrow> string \<Rightarrow> nat" where
  "listener_count s ev = length (channel s ev)"

text \<open>A \<^verbatim>\<open>Set\<close> keeps insertion order and holds a value once.\<close>

definition set_add :: "listener \<Rightarrow> listener list \<Rightarrow> listener list" where
  "set_add cb cbs = (if cb \<in> set cbs then cbs else cbs @ [cb])"

definition on :: "string \<Rightarrow> listener \<Rightarrow> WebSocketService \<Rightarrow> WebSocketService" where
  "on ev cb s =
     (let s1 = (if listeners s ev = None then s\<lparr>listeners := (listeners s)(ev \<mapsto> [])\<rparr> else s)
      in s1\<lparr>listeners := (listeners s1)(ev \<mapsto> set_add cb (channel s1 ev))\<rparr>)"

definition off :: "string \<Rightarrow> listener \<Rightarrow> WebSocketService \<Rightarrow> WebSocketService" where
  "off ev cb s =
     (case listeners s ev of
        None \<Rightarrow> s
      | Some cbs \<Rightarrow>
          (let cbs' = removeAll cb cbs
           in if cbs' = [] then s\<lparr>listeners := (listeners s)(ev := None)\<rparr>
              else s\<lparr>listeners := (listeners s)(ev \<mapsto> cbs')\<rparr>))"

definition once :: "string \<Rightarrow> listener \<Rightarrow> WebSocketService \<Rightarrow> WebSocketService" where
  "once ev cb s = on ev (Once (nextWrapper s) ev cb) (s\<lparr>nextWrapper := nextWrapper s + 1\<rparr>)"

text \<open>The property \<^verbatim>\<open>data.status\<close> that the handler of \<^verbatim>\<open>waitForConnection\<close> reads.\<close>

fun payload_status :: "payload \<Rightarrow> string option" where
  "payload_status (Conn StatusConnected) = Some ''connected''"
| "payload_status (Conn (StatusDisconnected r)) = Some ''disconnected''"
| "payload_status (Conn (StatusError e)) = Some ''error''"
| "payload_status (Conn StatusFailed) = Some ''failed''"
| "payload_status (Msg (JObj fs)) =
     (case map_of fs ''status'' of Some (JStr x) \<Rightarrow> Some x | _ \<Rightarrow> None)"
| "payload_status (Msg _) = None"
| "payload_status (Wrapped ev d) = None"

fun invoke :: "listener \<Rightarrow> payload \<Rightarrow> WebSocketService \<Rightarrow> WebSocketService" where
  "invoke (Ext i) d s = s\<lparr>calls := calls s @ [(i, d)]\<rparr>"
| "invoke (WaitHandler p t) d s =
     (if payload_status d = Some ''connected''
      then resolve p True (off ''connection'' (WaitHandler p t) (clearTimer t s))
      else s)"
| "invoke (Once w ev cb) d s = invoke cb d (off ev (Once w ev cb) s)"

text \<open>
  \<^verbatim>\<open>Set.forEach\<close> visits the listeners in insertion order. A listener of this model
  removes at most itself while the set is visited, so visiting the listeners that were in
  the set when \<^verbatim>\<open>forEach\<close> started is what the source does.
\<close>

fun forEach :: "listener list \<Rightarrow> payload \<Rightarrow> WebSocketService \<Rightarrow> WebSocketService" where
  "forEach [] d s = s"
| "forEach (cb # cbs) d s = forEach cbs d (invoke cb d s)"

definition emit :: "string \<Rightarrow> payload \<Rightarrow> WebSocketService \<Rightarrow> WebSocketService" where
  "emit ev d s =
     (let s1 = (case listeners s ev of Some cbs \<Rightarrow> forEach cbs d s | None \<Rightarrow> s)
      in case listeners s1 ''*'' of
           Some cbs \<Rightarrow> forEach cbs (Wrapped ev d) s1
         | None \<Rightarrow> s1)"

subsection \<open>Connection, heartbeat and reconnection\<close>

definition socket_is_open :: "WebSocketService \<Rightarrow> bool" where
  "socket_is_open s = (case socket s of None \<Rightarrow> False | Some k \<Rightarrow> ready s k = Some OPEN)"

text \<open>
  \<^verbatim>\<open>connect\<close> constructs a \<^verbatim>\<open>WebSocket\<close> and \<^verbatim>\<open>setupEventHandlers\<close> installs the four
  callbacks on it. The callbacks are the functions \<open>onopen\<close>, \<open>onclose\<close>, \<open>onerror\<close> and
  \<open>onmessage\<close> below; they read and write the fields of the service, whichever socket
  delivers the event, and no method of the class ever removes them from a socket.
\<close>

definition connect :: "WebSocketService \<Rightarrow> WebSocketService" where
  "connect s =
     (if socket_is_open s then s
      else s\<lparr> manualClose := False, state := Connecting,
              sockets := sockets s @ [\<lparr>readyState = CONNECTING, sent = []\<rparr>],
              socket := Some (length (sockets s)) \<rparr>)"

definition clearHeartbeat :: "WebSocketService \<Rightarrow> WebSocketService" where
  "clearHeartbeat s =
     (let s1 = (case heartbeatTimer s of Some i \<Rightarrow> clearTimer i s | None \<Rightarrow> s);
          s2 = (case pongTimeout s1 of Some i \<Rightarrow> clearTimer i s1 | None \<Rightarrow> s1)
      in s2\<lparr>heartbeatTimer := None, pongTimeout := None\<rparr>)"

definition startHeartbeat :: "WebSocketService \<Rightarrow> WebSocketService" where
  "startHeartbeat s =
     (let s1 = clearHeartbeat s
      in (setTimer (HeartbeatInterval (heartbeatIntervalMs s1)) s1)\<lparr>heartbeatTimer := Some (nextTimer s1)\<rparr>)"

text \<open>The callback of the heartbeat interval, and the callback of the pong deadline.\<close>

definition heartbeat_tick :: "nat \<Rightarrow> WebSocketService \<Rightarrow> WebSocketService" where
  "heartbeat_tick now s =
     (case socket s of
        None \<Rightarrow> s
      | Some k \<Rightarrow>
          if ready s k \<noteq> Some OPEN then s
          else (case socket_send k (Ping now) s of
                  Inl e \<Rightarrow> s
                | Inr s1 \<Rightarrow>
                    (let s2 = (case pongTimeout s1 of Some i \<Rightarrow> clearTimer i s1 | None \<Rightarrow> s1)
                     in (setTimer (PongDeadline (heartbeatTimeoutMs s2)) s2)\<lparr>pongTimeout := Some (nextTimer s2)\<rparr>)))"

definition pong_deadline :: "WebSocketService \<Rightarrow> WebSocketService" where
  "pong_deadline s = (case socket s of None \<Rightarrow> s | Some k \<Rightarrow> socket_close k s)"

definition jitter :: "real \<Rightarrow> real" where
  "jitter r = 300 + r * 300"

definition reconnectDelay :: "real \<Rightarrow> nat \<Rightarrow> real \<Rightarrow> real" where
  "reconnectDelay base attempts r = base * 2 ^ (attempts - 1) + jitter r"

definition handleReconnect :: "real \<Rightarrow> WebSocketService \<Rightarrow> WebSocketService" where
  "handleReconnect r s =
     (if reconnectAttempts s \<ge> maxReconnectAttempts s
      then emit ''connection'' (Conn StatusFailed) s
      else (let s1 = s\<lparr>reconnectAttempts := reconnectAttempts s + 1\<rparr>;
                delay = reconnectDelay (baseReconnectDelay s1) (reconnectAttempts s1) r;
                s2 = s1\<lparr>state := Reconnecting\<rparr>
            in setTimer (ReconnectTimer delay) s2))"

subsection \<open>Sending and the outbound queue\<close>

text \<open>
  The \<^verbatim>\<open>else\<close> branch of \<^verbatim>\<open>send\<close>: \<^verbatim>\<open>shift\<close> when the queue is at its bound (on an
  empty array \<^verbatim>\<open>shift\<close> does nothing), then \<^verbatim>\<open>push\<close>.
\<close>

definition enqueue :: "message \<Rightarrow> WebSocketService \<Rightarrow> WebSocketService" where
  "enqueue m s =
     (let s1 = (if length (messageQueue s) \<ge> maxQueueSize s
                then s\<lparr>messageQueue := tl (messageQueue s)\<rparr> else s)
      in s1\<lparr>messageQueue := messageQueue s1 @ [m]\<rparr>)"

definition send :: "string \<Rightarrow> json \<Rightarrow> WebSocketService \<Rightarrow> error + WebSocketService" where
  "send ev dat s =
     (let message = (ev, dat)
      in case socket s of
           Some k \<Rightarrow>
             if ready s k = Some OPEN then socket_send k (Frame message) s
             else Inr (enqueue message s)
         | None \<Rightarrow> Inr (enqueue message s))"

fun send_each :: "nat \<Rightarrow> message list \<Rightarrow> WebSocketService \<Rightarrow> error + WebSocketService" where
  "send_each k [] s = Inr s"
| "send_each k (m # ms) s =
     (case socket_send k (Frame m) s of Inl e \<Rightarrow> Inl e | Inr s1 \<Rightarrow> send_each k ms s1)"

definition flushQueue :: "WebSocketService \<Rightarrow> error + WebSocketService" where
  "flushQueue s =
     (if messageQueue s = [] then Inr s
      else case socket s of
             None \<Rightarrow> Inr s
           | Some k \<Rightarrow>
               if ready s k \<noteq> Some OPEN then Inr s
               else (case send_each k (messageQueue s) s of
                       Inl e \<Rightarrow> Inl e
                     | Inr s1 \<Rightarrow> Inr (s1\<lparr>messageQueue := []\<rparr>)))"

subsection \<open>The transport callbacks\<close>

definition onopen :: "nat \<Rightarrow> WebSocketService \<Rightarrow> error + WebSocketService" where
  "onopen now s =
     (let s1 = s\<lparr>state := Connected, reconnectAttempts := 0, lastConnectedAt := Some now\<rparr>;
          s2 = emit ''connection'' (Conn StatusConnected) s1;
          s3 = startHeartbeat s2
      in flushQueue s3)"

definition onclose :: "nat \<Rightarrow> string \<Rightarrow> real \<Rightarrow> WebSocketService \<Rightarrow> WebSocketService" where
  "onclose now reason r s =
     (let s1 = clearHeartbeat (s\<lparr>state := Disconnected\<rparr>);
          s2 = s1\<lparr>lastDisconnectedAt := Some now\<rparr>;
          s3 = emit ''connection'' (Conn (StatusDisconnected reason)) s2
      in if \<not> manualClose s3 then handleReconnect r s3 else s3)"

definition onerror :: "string \<Rightarrow> WebSocketService \<Rightarrow> WebSocketService" where
  "onerror e s = emit ''connection'' (Conn (StatusError e)) s"

text \<open>\<^verbatim>\<open>msg.type || "message"\<close>: an absent or empty \<^verbatim>\<open>type\<close> is falsy.\<close>

definition type_of :: "string option \<Rightarrow> string" where
  "type_of t = (case t of None \<Rightarrow> ''message'' | Some x \<Rightarrow> if x = [] then ''message'' else x)"

definition onmessage :: "inbound \<Rightarrow> WebSocketService \<Rightarrow> WebSocketService" where
  "onmessage dat s =
     (case dat of
        NonJson txt \<Rightarrow> s
      | Parsed t msg \<Rightarrow>
          if type_of t = ''pong''
          then (case pongTimeout s of Some i \<Rightarrow> clearTimer i s | None \<Rightarrow> s)
          else emit (type_of t) (Msg msg) s)"

subsection \<open>The rest of the public methods\<close>

definition disconnect :: "WebSocketService \<Rightarrow> WebSocketService" where
  "disconnect s =
     (let s1 = clearHeartbeat (s\<lparr>manualClose := True\<rparr>);
          s2 = (case socket s1 of
                  Some k \<Rightarrow> (socket_close k s1)\<lparr>socket := None\<rparr>
                | None \<Rightarrow> s1)
      in s2\<lparr>listeners := Map.empty, state := Disconnected\<rparr>)"

definition isConnected :: "WebSocketService \<Rightarrow> bool" where
  "isConnected s = (state s = Connected)"

definition getConnectionState :: "WebSocketService \<Rightarrow> WSState" where
  "getConnectionState s = state s"

text \<open>
  \<^verbatim>\<open>waitForConnection\<close> returns the promise it creates; the executor of the promise runs
  before the method returns.
\<close>

definition waitForConnection :: "nat \<Rightarrow> WebSocketService \<Rightarrow> nat \<times> WebSocketService" where
  "waitForConnection timeoutMs s =
     (let p = nextPromise s;
          s0 = s\<lparr>nextPromise := p + 1\<rparr>
      in if isConnected s0 then (p, resolve p True s0)
         else (let t = nextTimer s0;
                   s1 = setTimer (WaitTimeout p timeoutMs) s0
               in (p, on ''connection'' (WaitHandler p t) s1)))"

text \<open>The callback of the timer armed by \<^verbatim>\<open>waitForConnection\<close>.\<close>

definition wait_timeout :: "nat \<Rightarrow> nat \<Rightarrow> WebSocketService \<Rightarrow> WebSocketService" where
  "wait_timeout p t s = resolve p False (off ''connection'' (WaitHandler p t) s)"

definition forceReconnect :: "WebSocketService \<Rightarrow> WebSocketService" where
  "forceReconnect s = connect (disconnect s)"

record stats =
  stats_state :: WSState
  stats_reconnectAttempts :: nat
  stats_lastConnectedAt :: "nat option"
  stats_lastDisconnectedAt :: "nat option"
  stats_queuedMessages :: nat

definition getStats :: "WebSocketService \<Rightarrow> stats" where
  "getStats s = \<lparr> stats_state = state s, stats_reconnectAttempts = reconnectAttempts s,
     stats_lastConnectedAt = lastConnectedAt s, stats_lastDisconnectedAt = lastDisconnectedAt s,
     stats_queuedMessages = length (messageQueue s) \<rparr>"

subsection \<open>Runs of the event loop\<close>

text \<open>
  An event is a call of a public method by a collaborator, an event delivered by one of
  the sockets the service has constructed, or the expiry of a pending timer. The browser
  delivers \<^verbatim>\<open>open\<close> only to a connecting socket, \<^verbatim>\<open>message\<close> only to an open one and
  \<^verbatim>\<open>close\<close> once, after which the socket is closed for good; a timer fires only
  while it is pending, and a timeout is no longer pending once it has fired. \<open>fire\<close> is
  \<open>None\<close> for an event that cannot happen in the state, \<open>Some (Inl e)\<close> when the code that
  runs throws \<open>e\<close>, and \<open>Some (Inr s')\<close> when it runs to completion.
\<close>

datatype event =
    CallConnect
  | CallDisconnect
  | CallForceReconnect
  | CallSend string json
  | CallOn string nat
  | CallOff string listener
  | CallOnce string nat
  | CallWaitForConnection nat
  | TransportOpen nat nat
  | TransportClose nat nat string real
  | TransportError nat string
  | TransportMessage nat inbound
  | TimerFires nat nat

definition run_timer :: "nat \<Rightarrow> timer \<Rightarrow> nat \<Rightarrow> WebSocketService \<Rightarrow> WebSocketService" where
  "run_timer i t now s =
     (case t of
        ReconnectTimer d \<Rightarrow> connect (clearTimer i s)
      | HeartbeatInterval ms \<Rightarrow> heartbeat_tick now s
      | PongDeadline ms \<Rightarrow> pong_deadline (clearTimer i s)
      | WaitTimeout p ms \<Rightarrow> wait_timeout p i (clearTimer i s))"

definition fire :: "event \<Rightarrow> WebSocketService \<Rightarrow> (error + WebSocketService) option" where
  "fire e s =
     (case e of
        CallConnect \<Rightarrow> Some (Inr (connect s))
      | CallDisconnect \<Rightarrow> Some (Inr (disconnect s))
      | CallForceReconnect \<Rightarrow> Some (Inr (forceReconnect s))
      | CallSend ev dat \<Rightarrow> Some (send ev dat s)
      | CallOn ev i \<Rightarrow> Some (Inr (on ev (Ext i) s))
      | CallOff ev cb \<Rightarrow> Some (Inr (off ev cb s))
      | CallOnce ev i \<Rightarrow> Some (Inr (once ev (Ext i) s))
      | CallWaitForConnection ms \<Rightarrow> Some (Inr (snd (waitForConnection ms s)))
      | TransportOpen k now \<Rightarrow>
          if ready s k = Some CONNECTING then Some (onopen now (set_ready k OPEN s)) else None
      | TransportClose k now reason r \<Rightarrow>
          if ready s k \<noteq> None \<and> ready s k \<noteq> Some CLOSED
          then Some (Inr (onclose now reason r (set_ready k CLOSED s))) else None
      | TransportError k err \<Rightarrow>
          if ready s k \<noteq> None \<and> ready s k \<noteq> Some CLOSED
          then Some (Inr (onerror err s)) else None
      | TransportMessage k dat \<Rightarrow>
          if ready s k = Some OPEN then Some (Inr (onmessage dat s)) else None
      | TimerFires i now \<Rightarrow>
          (case map_of (timers s) i of
             None \<Rightarrow> None
           | Some t \<Rightarrow> Some (Inr (run_timer i t now s))))"

fun fires :: "event list \<Rightarrow> WebSocketService \<Rightarrow> (error + WebSocketService) option" where
  "fires [] s = Some (Inr s)"
| "fires (e # es) s =
     (case fire e s of
        Some (Inr s1) \<Rightarrow> fires es s1
      | other \<Rightarrow> other)"

section \<open>Notions used in the statements\<close>

subsection \<open>Observations on states and events\<close>

text \<open>
  Listeners of the model touch the registry, the call log, the promises and the pending
  timers, and nothing else; \<open>same_core\<close> says that two states agree on the other fields.
\<close>

definition same_core :: "WebSocketService \<Rightarrow> WebSocketService \<Rightarrow> bool" where
  "same_core s s' =
     (socket s' = socket s \<and> sockets s' = sockets s \<and>
      reconnectAttempts s' = reconnectAttempts s \<and>
      maxReconnectAttempts s' = maxReconnectAttempts s \<and>
      baseReconnectDelay s' = baseReconnectDelay s \<and>
      manualClose s' = manualClose s \<and>
      heartbeatIntervalMs s' = heartbeatIntervalMs s \<and>
      heartbeatTimeoutMs s' = heartbeatTimeoutMs s \<and>
      heartbeatTimer s' = heartbeatTimer s \<and>
      pongTimeout s' = pongTimeout s \<and>
      messageQueue s' = messageQueue s \<and>
      maxQueueSize s' = maxQueueSize s \<and>
      state s' = state s \<and>
      lastConnectedAt s' = lastConnectedAt s \<and>
      lastDisconnectedAt s' = lastDisconnectedAt s \<and>
      nextTimer s' = nextTimer s \<and>
      nextPromise s' = nextPromise s \<and>
      nextWrapper s' = nextWrapper s)"


definition registers :: "event \<Rightarrow> bool" where
  "registers e =
     (case e of CallOn ev i \<Rightarrow> True | CallOnce ev i \<Rightarrow> True
      | CallWaitForConnection ms \<Rightarrow> True | _ \<Rightarrow> False)"

text \<open>No transport is live, no retry is pending, and the state is \<open>Disconnected\<close>.\<close>

definition dormant :: "WebSocketService \<Rightarrow> bool" where
  "dormant s = (live_sockets s = 0 \<and> reconnect_timers s = [] \<and> state s = Disconnected)"


text \<open>Successive calls of \<^verbatim>\<open>send\<close>, and the last \<open>n\<close> elements of a list.\<close>

fun sends :: "message list \<Rightarrow> WebSocketService \<Rightarrow> error + WebSocketService" where
  "sends [] s = Inr s"
| "sends (m # ms) s =
     (case send (fst m) (snd m) s of Inl e \<Rightarrow> Inl e | Inr s1 \<Rightarrow> sends ms s1)"

definition keep_last :: "nat \<Rightarrow> 'a list \<Rightarrow> 'a list" where
  "keep_last n xs = drop (length xs - n) xs"

definition queue_bounded :: "WebSocketService \<Rightarrow> bool" where
  "queue_bounded s = (0 < maxQueueSize s \<and> length (messageQueue s) \<le> maxQueueSize s)"

subsection \<open>Identifiers\<close>

text \<open>
  What \<^verbatim>\<open>waitForConnection\<close> creates is new: the promise is unsettled, the closure is not
  registered yet, the timer identifier is not in use. The registry holds no empty set.
\<close>

definition fresh_wait :: "WebSocketService \<Rightarrow> bool" where
  "fresh_wait s =
     (promises s (nextPromise s) = None \<and>
      WaitHandler (nextPromise s) (nextTimer s) \<notin> set (channel s ''connection'') \<and>
      nextTimer s \<notin> fst ` set (timers s) \<and>
      listeners s ''connection'' \<noteq> Some [])"

text \<open>
  The identifiers a listener refers to have been handed out: \<open>np\<close> and \<open>nt\<close> are the
  next promise and the next timer identifier. \<open>ids_in_use\<close> is the invariant of the event
  loop from which \<open>fresh_wait\<close> follows.
\<close>

fun ids_below :: "nat \<Rightarrow> nat \<Rightarrow> listener \<Rightarrow> bool" where
  "ids_below np nt (Ext i) = True"
| "ids_below np nt (WaitHandler p t) = (p < np \<and> t < nt)"
| "ids_below np nt (Once w ev cb) = ids_below np nt cb"

definition timer_ok :: "nat \<Rightarrow> timer \<Rightarrow> bool" where
  "timer_ok np t = (case t of WaitTimeout p ms \<Rightarrow> p < np | _ \<Rightarrow> True)"

definition ids_in_use :: "WebSocketService \<Rightarrow> bool" where
  "ids_in_use s =
     ((\<forall>p. nextPromise s \<le> p \<longrightarrow> promises s p = None) \<and>
      (\<forall>c cbs. listeners s c = Some cbs \<longrightarrow>
         cbs \<noteq> [] \<and> (\<forall>cb \<in> set cbs. ids_below (nextPromise s) (nextTimer s) cb)) \<and>
      (\<forall>x \<in> set (timers s). fst x < nextTimer s \<and> timer_ok (nextPromise s) (snd x)))"

subsection \<open>The specification's formulas\<close>

text \<open>
  The delay in the specification's words: \<^verbatim>\<open>min(base * 2^(attempts-1) + jitter, cap)\<close>.
\<close>

definition capped_delay :: "real \<Rightarrow> real \<Rightarrow> nat \<Rightarrow> real \<Rightarrow> real" where
  "capped_delay base cap attempts j = min (base * 2 ^ (attempts - 1) + j) cap"


subsection \<open>Example runs\<close>

text \<open>
  The state after a run of events from a given state; the runs below are all possible, so
  \<open>after\<close> is the state they end in.
\<close>

definition after :: "event list \<Rightarrow> WebSocketService \<Rightarrow> WebSocketService" where
  "after es s = (case fires es s of Some (Inr s') \<Rightarrow> s' | _ \<Rightarrow> s)"

text \<open>
  A connected service with one subscriber of \<^verbatim>\<open>connection\<close> and one of \<^verbatim>\<open>"*"\<close>; and a
  service with one subscriber whose first transport is still connecting.
\<close>

definition subscribed :: WebSocketService where
  "subscribed = after [CallOn ''connection'' 0, CallOn ''*'' 1, CallConnect, TransportOpen 0 5] init"


text \<open>Two calls of \<^verbatim>\<open>connect\<close> before the first transport has opened.\<close>

definition connect_twice :: WebSocketService where
  "connect_twice = after [CallConnect, CallConnect] init"


definition five_failures :: WebSocketService where
  "five_failures = after
     [CallConnect,
      TransportClose 0 10 ''net'' 0, TimerFires 1 11,
      TransportClose 1 20 ''net'' 0, TimerFires 2 21,
      TransportClose 2 30 ''net'' 0, TimerFires 3 31,
      TransportClose 3 40 ''net'' 0, TimerFires 4 41,
      TransportClose 4 50 ''net'' 0, TimerFires 5 51] init"


text \<open>
  The specification's scenario C: a queue bound of 1 (the class fixes the bound at 100)
  and a transport that is still connecting.
\<close>

definition scenario_c :: WebSocketService where
  "scenario_c = (connect init)\<lparr>maxQueueSize := 1\<rparr>"


text \<open>
  A forced reconnect of a connected service: the new transport opens, and then the
  \<^verbatim>\<open>close\<close> event of the old transport, which \<^verbatim>\<open>disconnect\<close> had closed, is delivered.
\<close>

definition reconnected :: WebSocketService where
  "reconnected = after [CallConnect, TransportOpen 0 5, CallForceReconnect, TransportOpen 1 7] init"

definition late_close :: WebSocketService where
  "late_close = after [TransportClose 0 9 [] 0] reconnected"

text \<open>
  A transport has failed and a retry is pending when the operator calls \<^verbatim>\<open>disconnect\<close>;
  then the retry timer fires.
\<close>

definition closed_by_operator :: WebSocketService where
  "closed_by_operator = after [CallConnect, TransportClose 0 10 ''net'' 0, CallDisconnect] init"

definition retry_after_close :: WebSocketService where
  "retry_after_close = after [TimerFires 1 1400] closed_by_operator"

section \<open>Supporting lemmas\<close>

subsection \<open>What a dispatch leaves alone\<close>

lemma same_core_refl: "same_core s s"
  by (simp add: same_core_def)

lemma same_core_trans: "same_core s t \<Longrightarrow> same_core t u \<Longrightarrow> same_core s u"
  by (simp add: same_core_def)

lemma same_core_off: "same_core s (off ev cb s)"
  by (simp add: same_core_def off_def Let_def split: option.splits)

lemma same_core_clearTimer: "same_core s (clearTimer i s)"
  by (simp add: same_core_def clearTimer_def)

lemma same_core_resolve: "same_core s (resolve p v s)"
  by (simp add: same_core_def resolve_def)

lemma same_core_invoke: "same_core s (invoke cb d s)"
proof (induction cb arbitrary: s)
  case (Ext i)
  show ?case by (simp add: same_core_def)
next
  case (WaitHandler p t)
  have "same_core s (resolve p True (off ''connection'' (WaitHandler p t) (clearTimer t s)))"
    by (rule same_core_trans [OF same_core_clearTimer same_core_trans [OF same_core_off same_core_resolve]])
  then show ?case by (simp add: same_core_refl)
next
  case (Once w ev cb)
  show ?case
    by (simp only: invoke.simps) (rule same_core_trans [OF same_core_off Once.IH])
qed

lemma same_core_forEach: "same_core s (forEach cbs d s)"
proof (induction cbs arbitrary: s)
  case Nil
  show ?case by (simp add: same_core_refl)
next
  case (Cons cb cbs)
  show ?case
    by (simp only: forEach.simps) (rule same_core_trans [OF same_core_invoke Cons.IH])
qed

lemma same_core_emit: "same_core s (emit ev d s)"
proof -
  let ?s1 = "case listeners s ev of Some cbs \<Rightarrow> forEach cbs d s | None \<Rightarrow> s"
  have 1: "same_core s ?s1"
    by (cases "listeners s ev") (simp_all add: same_core_refl same_core_forEach)
  have 2: "same_core ?s1 (emit ev d s)"
    unfolding emit_def Let_def
    by (cases "listeners ?s1 ''*''") (simp_all add: same_core_refl same_core_forEach)
  show ?thesis by (rule same_core_trans [OF 1 2])
qed

lemmas emit_core = same_core_emit [unfolded same_core_def]


subsection \<open>Fields of the primitive steps\<close>

lemma channel_off:
  "channel (off ev cb s) c = (if c = ev then removeAll cb (channel s ev) else channel s c)"
  by (cases "listeners s ev") (simp_all add: off_def channel_def Let_def)

lemma off_other_fields [simp]:
  "calls (off ev cb s) = calls s" "timers (off ev cb s) = timers s"
  "promises (off ev cb s) = promises s"
  by (cases "listeners s ev"; simp add: off_def Let_def)+

lemma clearTimer_fields [simp]:
  "listeners (clearTimer i s) = listeners s" "calls (clearTimer i s) = calls s"
  "promises (clearTimer i s) = promises s"
  "timers (clearTimer i s) = filter (\<lambda>x. fst x \<noteq> i) (timers s)"
  by (simp_all add: clearTimer_def)

lemma resolve_fields [simp]:
  "listeners (resolve p v s) = listeners s" "calls (resolve p v s) = calls s"
  "timers (resolve p v s) = timers s"
  by (simp_all add: resolve_def)

lemma channel_clearTimer [simp]: "channel (clearTimer i s) c = channel s c"
  by (simp add: channel_def)

lemma channel_resolve [simp]: "channel (resolve p v s) c = channel s c"
  by (simp add: channel_def)

lemma emit_no_listeners: "listeners s = Map.empty \<Longrightarrow> emit ev d s = s"
  by (simp add: emit_def)

subsection \<open>A dispatch only removes listeners and timers, and only adds calls\<close>




lemma invoke_calls: "set (calls s) \<subseteq> set (calls (invoke cb d s))"
proof (induction cb arbitrary: s)
  case (Ext i)
  show ?case by auto
next
  case (WaitHandler p t)
  show ?case by simp
next
  case (Once w ev cb)
  have "set (calls (off ev (Once w ev cb) s)) \<subseteq> set (calls (invoke cb d (off ev (Once w ev cb) s)))"
    by (rule Once.IH)
  then show ?case by simp
qed

lemma forEach_calls: "set (calls s) \<subseteq> set (calls (forEach cbs d s))"
proof (induction cbs arbitrary: s)
  case Nil
  show ?case by simp
next
  case (Cons cb cbs)
  have "set (calls s) \<subseteq> set (calls (invoke cb d s))" by (rule invoke_calls)
  also have "\<dots> \<subseteq> set (calls (forEach cbs d (invoke cb d s)))" by (rule Cons.IH)
  finally show ?case by simp
qed

lemma invoke_keeps_Ext:
  "Ext i \<in> set (channel s c) \<Longrightarrow> Ext i \<in> set (channel (invoke cb d s) c)"
proof (induction cb arbitrary: s)
  case (Ext j)
  then show ?case by (simp add: channel_def)
next
  case (WaitHandler p t)
  then show ?case by (auto simp: channel_off)
next
  case (Once w ev cb)
  have "Ext i \<in> set (channel (off ev (Once w ev cb) s) c)"
    using Once.prems by (auto simp: channel_off)
  then show ?case using Once.IH by simp
qed

lemma forEach_keeps_Ext:
  "Ext i \<in> set (channel s c) \<Longrightarrow> Ext i \<in> set (channel (forEach cbs d s) c)"
  by (induction cbs arbitrary: s) (simp_all add: invoke_keeps_Ext)

lemma forEach_calls_Ext: "Ext i \<in> set cbs \<Longrightarrow> (i, d) \<in> set (calls (forEach cbs d s))"
proof (induction cbs arbitrary: s)
  case Nil
  then show ?case by simp
next
  case (Cons cb cbs)
  show ?case
  proof (cases "cb = Ext i")
    case True
    have "(i, d) \<in> set (calls (invoke cb d s))" using True by simp
    then show ?thesis using forEach_calls [of "invoke cb d s" cbs d] by auto
  next
    case False
    then have "Ext i \<in> set cbs" using Cons.prems by simp
    then show ?thesis using Cons.IH by simp
  qed
qed

lemma emit_calls_event:
  assumes "Ext i \<in> set (channel s ev)"
  shows "(i, d) \<in> set (calls (emit ev d s))"
proof -
  obtain cbs where cbs: "listeners s ev = Some cbs" "Ext i \<in> set cbs"
    using assms by (cases "listeners s ev") (simp_all add: channel_def)
  let ?s1 = "forEach cbs d s"
  have 1: "(i, d) \<in> set (calls ?s1)" by (rule forEach_calls_Ext [OF cbs(2)])
  have "set (calls ?s1) \<subseteq> set (calls (emit ev d s))"
    unfolding emit_def Let_def using cbs(1)
    by (cases "listeners ?s1 ''*''") (simp_all add: forEach_calls)
  with 1 show ?thesis by blast
qed

lemma emit_calls_star:
  assumes "Ext i \<in> set (channel s ''*'')"
  shows "(i, Wrapped ev d) \<in> set (calls (emit ev d s))"
proof -
  let ?s1 = "case listeners s ev of Some cbs \<Rightarrow> forEach cbs d s | None \<Rightarrow> s"
  have "Ext i \<in> set (channel ?s1 ''*'')"
    using assms by (cases "listeners s ev") (simp_all add: forEach_keeps_Ext)
  then obtain cbs where cbs: "listeners ?s1 ''*'' = Some cbs" "Ext i \<in> set cbs"
    by (cases "listeners ?s1 ''*''") (simp_all add: channel_def)
  have "emit ev d s = forEach cbs (Wrapped ev d) ?s1"
    unfolding emit_def Let_def using cbs(1) by simp
  then show ?thesis using forEach_calls_Ext [OF cbs(2)] by simp
qed

subsection \<open>Transmitting and flushing\<close>

lemma ready_transmit [simp]: "ready (transmit k fs s) j = ready s j"
  by (cases "k < length (sockets s)")
    (auto simp: ready_def transmit_def nth_list_update list_update_beyond)

lemma transmit_transmit:
  "transmit k fs2 (transmit k fs1 s) = transmit k (fs1 @ fs2) s"
  by (cases "k < length (sockets s)") (simp_all add: transmit_def list_update_beyond)

lemma send_each_open:
  "ready s k = Some OPEN \<Longrightarrow> send_each k ms s = Inr (transmit k (map Frame ms) s)"
proof (induction ms arbitrary: s)
  case Nil
  then show ?case by (simp add: transmit_def)
next
  case (Cons m ms)
  have "socket_send k (Frame m) s = Inr (transmit k [Frame m] s)"
    using Cons.prems by (simp add: socket_send_def)
  moreover have "ready (transmit k [Frame m] s) k = Some OPEN"
    using Cons.prems by simp
  ultimately show ?case
    using Cons.IH [of "transmit k [Frame m] s"] by (simp add: transmit_transmit)
qed

lemma flushQueue_open:
  assumes "socket s = Some k" "ready s k = Some OPEN"
  shows "flushQueue s = Inr ((transmit k (map Frame (messageQueue s)) s)\<lparr>messageQueue := []\<rparr>)"
proof (cases "messageQueue s = []")
  case True
  then show ?thesis by (simp add: flushQueue_def transmit_def)
next
  case False
  then show ?thesis using assms by (simp add: flushQueue_def send_each_open)
qed

lemma flushQueue_not_open: "\<not> socket_is_open s \<Longrightarrow> flushQueue s = Inr s"
  by (simp add: flushQueue_def socket_is_open_def split: option.splits)

lemma flushQueue_cases:
  obtains "flushQueue s = Inr s"
  | k where "socket s = Some k" "ready s k = Some OPEN"
      "flushQueue s = Inr ((transmit k (map Frame (messageQueue s)) s)\<lparr>messageQueue := []\<rparr>)"
proof (cases "socket_is_open s")
  case False
  then show ?thesis using that(1) flushQueue_not_open by blast
next
  case True
  then obtain k where k: "socket s = Some k" "ready s k = Some OPEN"
    by (auto simp: socket_is_open_def split: option.splits)
  then show ?thesis using that(2) flushQueue_open by blast
qed

subsection \<open>With an empty registry nothing is invoked\<close>

lemma clearHeartbeat_dispatch [simp]:
  "listeners (clearHeartbeat s) = listeners s" "calls (clearHeartbeat s) = calls s"
  "promises (clearHeartbeat s) = promises s"
  by (simp_all add: clearHeartbeat_def Let_def split: option.splits)

lemma socket_close_dispatch [simp]:
  "listeners (socket_close k s) = listeners s" "calls (socket_close k s) = calls s"
  "promises (socket_close k s) = promises s" "timers (socket_close k s) = timers s"
  by (simp_all add: socket_close_def set_ready_def split: option.splits ready_state.splits)

lemma connect_dispatch [simp]:
  "listeners (connect s) = listeners s" "calls (connect s) = calls s"
  "promises (connect s) = promises s" "timers (connect s) = timers s"
  by (simp_all add: connect_def)

lemma disconnect_dispatch [simp]:
  "listeners (disconnect s) = Map.empty" "calls (disconnect s) = calls s"
  "promises (disconnect s) = promises s"
  by (simp_all add: disconnect_def Let_def split: option.splits)

lemma send_dispatch:
  assumes "send ev dat s = Inr s'"
  shows "listeners s' = listeners s \<and> calls s' = calls s \<and> promises s' = promises s \<and> timers s' = timers s"
  using assms
  by (auto simp: send_def socket_send_def enqueue_def transmit_def Let_def
      split: option.splits ready_state.splits if_splits)

lemma flushQueue_dispatch:
  assumes "flushQueue s = Inr s'"
  shows "listeners s' = listeners s \<and> calls s' = calls s \<and> promises s' = promises s \<and> timers s' = timers s"
  using assms by (cases s rule: flushQueue_cases) (auto simp: transmit_def)

lemma startHeartbeat_dispatch [simp]:
  "listeners (startHeartbeat s) = listeners s" "calls (startHeartbeat s) = calls s"
  "promises (startHeartbeat s) = promises s"
  by (simp_all add: startHeartbeat_def setTimer_def Let_def)

lemma heartbeat_tick_dispatch [simp]:
  "listeners (heartbeat_tick now s) = listeners s" "calls (heartbeat_tick now s) = calls s"
  "promises (heartbeat_tick now s) = promises s"
  by (simp_all add: heartbeat_tick_def socket_send_def transmit_def setTimer_def Let_def
      split: option.splits ready_state.splits)

lemma pong_deadline_dispatch [simp]:
  "listeners (pong_deadline s) = listeners s" "calls (pong_deadline s) = calls s"
  "promises (pong_deadline s) = promises s" "timers (pong_deadline s) = timers s"
  by (simp_all add: pong_deadline_def split: option.splits)

lemma set_ready_dispatch [simp]:
  "listeners (set_ready k r s) = listeners s" "calls (set_ready k r s) = calls s"
  "promises (set_ready k r s) = promises s" "timers (set_ready k r s) = timers s"
  by (simp_all add: set_ready_def)

lemma off_no_listeners: "listeners s = Map.empty \<Longrightarrow> off ev cb s = s"
  by (simp add: off_def)

lemma handleReconnect_no_listeners:
  "listeners s = Map.empty \<Longrightarrow>
     listeners (handleReconnect r s) = Map.empty \<and> calls (handleReconnect r s) = calls s"
  by (simp add: handleReconnect_def emit_no_listeners setTimer_def Let_def)

lemma onopen_no_listeners:
  assumes "listeners s = Map.empty" "onopen now s = Inr s'"
  shows "listeners s' = Map.empty \<and> calls s' = calls s"
proof -
  let ?s1 = "s\<lparr>state := Connected, reconnectAttempts := 0, lastConnectedAt := Some now\<rparr>"
  have "emit ''connection'' (Conn StatusConnected) ?s1 = ?s1"
    using assms(1) by (simp add: emit_no_listeners)
  then have "flushQueue (startHeartbeat ?s1) = Inr s'"
    using assms(2) by (simp add: onopen_def Let_def)
  from flushQueue_dispatch [OF this] show ?thesis using assms(1) by simp
qed

lemma onclose_no_listeners:
  assumes "listeners s = Map.empty"
  shows "listeners (onclose now reason r s) = Map.empty \<and> calls (onclose now reason r s) = calls s"
proof -
  let ?s2 = "(clearHeartbeat (s\<lparr>state := Disconnected\<rparr>))\<lparr>lastDisconnectedAt := Some now\<rparr>"
  have l: "listeners ?s2 = Map.empty" using assms by simp
  then have e: "emit ''connection'' (Conn (StatusDisconnected reason)) ?s2 = ?s2"
    by (rule emit_no_listeners)
  show ?thesis
    unfolding onclose_def Let_def e
    using handleReconnect_no_listeners [OF l, of r] l by simp
qed

lemma onmessage_no_listeners:
  "listeners s = Map.empty \<Longrightarrow>
     listeners (onmessage dat s) = Map.empty \<and> calls (onmessage dat s) = calls s"
  by (cases dat) (simp_all add: onmessage_def emit_no_listeners split: option.splits)

lemma run_timer_no_listeners:
  "listeners s = Map.empty \<Longrightarrow>
     listeners (run_timer i t now s) = Map.empty \<and> calls (run_timer i t now s) = calls s"
  by (cases t) (simp_all add: run_timer_def wait_timeout_def off_no_listeners)

lemma quiet_step:
  assumes "listeners s = Map.empty" "\<not> registers e" "fire e s = Some (Inr s')"
  shows "listeners s' = Map.empty \<and> calls s' = calls s"
proof (cases e)
  case CallConnect
  then show ?thesis using assms by (auto simp: fire_def)
next
  case CallDisconnect
  then show ?thesis using assms by (auto simp: fire_def)
next
  case CallForceReconnect
  then show ?thesis using assms by (auto simp: fire_def forceReconnect_def)
next
  case (CallSend ev dat)
  then have "send ev dat s = Inr s'" using assms(3) by (simp add: fire_def)
  from send_dispatch [OF this] show ?thesis using assms(1) by simp
next
  case (CallOn ev i)
  then show ?thesis using assms(2) by (simp add: registers_def)
next
  case (CallOff ev cb)
  then show ?thesis using assms by (auto simp: fire_def off_no_listeners)
next
  case (CallOnce ev i)
  then show ?thesis using assms(2) by (simp add: registers_def)
next
  case (CallWaitForConnection ms)
  then show ?thesis using assms(2) by (simp add: registers_def)
next
  case (TransportOpen k now)
  then have "onopen now (set_ready k OPEN s) = Inr s'"
    using assms(3) by (simp add: fire_def split: if_splits)
  from onopen_no_listeners [OF _ this] show ?thesis using assms(1) by simp
next
  case (TransportClose k now reason r)
  then have "s' = onclose now reason r (set_ready k CLOSED s)"
    using assms(3) by (simp add: fire_def split: if_splits)
  then show ?thesis
    using onclose_no_listeners [of "set_ready k CLOSED s" now reason r] assms(1) by simp
next
  case (TransportError k err)
  then show ?thesis
    using assms by (auto simp: fire_def onerror_def emit_no_listeners split: if_splits)
next
  case (TransportMessage k dat)
  then show ?thesis
    using assms onmessage_no_listeners [of s dat] by (auto simp: fire_def split: if_splits)
next
  case (TimerFires i now)
  then show ?thesis
    using assms run_timer_no_listeners [of s i _ now]
    by (auto simp: fire_def split: option.splits)
qed

lemma quiet_run:
  assumes "listeners s = Map.empty" "list_all (\<lambda>e. \<not> registers e) es"
    "fires es s = Some (Inr s')"
  shows "listeners s' = Map.empty \<and> calls s' = calls s"
  using assms
proof (induction es arbitrary: s)
  case Nil
  then show ?case by simp
next
  case (Cons e es)
  from Cons.prems(3) obtain s1 where s1: "fire e s = Some (Inr s1)" "fires es s1 = Some (Inr s')"
    by (auto split: option.splits sum.splits)
  have 1: "listeners s1 = Map.empty \<and> calls s1 = calls s"
    using quiet_step [OF Cons.prems(1) _ s1(1)] Cons.prems(2) by simp
  have "listeners s' = Map.empty \<and> calls s' = calls s1"
    using Cons.IH [OF _ _ s1(2)] 1 Cons.prems(2) by simp
  with 1 show ?case by simp
qed

subsection \<open>A dormant service stays dormant\<close>








lemma clearHeartbeat_core [simp]:
  "sockets (clearHeartbeat s) = sockets s" "state (clearHeartbeat s) = state s"
  "socket (clearHeartbeat s) = socket s" "manualClose (clearHeartbeat s) = manualClose s"
  "reconnectAttempts (clearHeartbeat s) = reconnectAttempts s"
  "maxReconnectAttempts (clearHeartbeat s) = maxReconnectAttempts s"
  "messageQueue (clearHeartbeat s) = messageQueue s"
  by (simp_all add: clearHeartbeat_def Let_def clearTimer_def split: option.splits)

lemma live_sockets_cong: "sockets s' = sockets s \<Longrightarrow> live_sockets s' = live_sockets s"
  by (simp add: live_sockets_def)



lemma dormant_listeners:
  "dormant s \<Longrightarrow> dormant (s\<lparr>listeners := m\<rparr>)"
  by (simp add: dormant_def live_sockets_def reconnect_timers_def)










subsection \<open>Evaluating concrete runs\<close>

text \<open>The definitions to unfold when a run is evaluated on a concrete state.\<close>

lemmas model_defs =
  init_def ready_def sent_on_def set_ready_def transmit_def socket_send_def socket_close_def
  setTimer_def clearTimer_def resolve_def channel_def listener_count_def set_add_def
  on_def off_def once_def emit_def socket_is_open_def connect_def clearHeartbeat_def
  startHeartbeat_def heartbeat_tick_def pong_deadline_def jitter_def reconnectDelay_def
  handleReconnect_def enqueue_def send_def flushQueue_def onopen_def onclose_def
  onerror_def type_of_def onmessage_def disconnect_def isConnected_def
  waitForConnection_def wait_timeout_def forceReconnect_def run_timer_def fire_def
  after_def live_sockets_def reconnect_timers_def is_reconnect_def Let_def

subsection \<open>The close and open callbacks\<close>




lemma startHeartbeat_core [simp]:
  "socket (startHeartbeat s) = socket s" "sockets (startHeartbeat s) = sockets s"
  "state (startHeartbeat s) = state s" "reconnectAttempts (startHeartbeat s) = reconnectAttempts s"
  "lastConnectedAt (startHeartbeat s) = lastConnectedAt s"
  "messageQueue (startHeartbeat s) = messageQueue s"
  "heartbeatIntervalMs (startHeartbeat s) = heartbeatIntervalMs s"
  by (simp_all add: startHeartbeat_def setTimer_def clearHeartbeat_def clearTimer_def Let_def
      split: option.splits)


lemma ready_cong: "sockets s' = sockets s \<Longrightarrow> ready s' k = ready s k"
  by (simp add: ready_def)

lemma sent_on_cong: "sockets s' = sockets s \<Longrightarrow> sent_on s' k = sent_on s k"
  by (simp add: sent_on_def)

lemma sent_on_transmit:
  "k < length (sockets s) \<Longrightarrow> sent_on (transmit k fs s) k = sent_on s k @ fs"
  by (simp add: sent_on_def transmit_def)





lemma onopen_flushes:
  assumes "socket s = Some k" "ready s k = Some OPEN"
  shows "\<exists>s'. onopen now s = Inr s' \<and> messageQueue s' = [] \<and>
           sent_on s' k = sent_on s k @ map Frame (messageQueue s)"
proof -
  let ?s1 = "s\<lparr>state := Connected, reconnectAttempts := 0, lastConnectedAt := Some now\<rparr>"
  let ?s2 = "emit ''connection'' (Conn StatusConnected) ?s1"
  let ?s3 = "startHeartbeat ?s2"
  have s3: "socket ?s3 = Some k" "sockets ?s3 = sockets s" "messageQueue ?s3 = messageQueue s"
    using assms(1) by (simp_all add: emit_core)
  have r3: "ready ?s3 k = Some OPEN" using assms(2) ready_cong [OF s3(2)] by simp
  have kl: "k < length (sockets ?s3)" using r3 by (simp add: ready_def split: if_splits)
  have "onopen now s = Inr ((transmit k (map Frame (messageQueue ?s3)) ?s3)\<lparr>messageQueue := []\<rparr>)"
    unfolding onopen_def Let_def by (rule flushQueue_open [OF s3(1) r3])
  moreover have "sent_on ((transmit k (map Frame (messageQueue ?s3)) ?s3)\<lparr>messageQueue := []\<rparr>) k
      = sent_on s k @ map Frame (messageQueue s)"
  proof -
    have "sent_on ((transmit k (map Frame (messageQueue ?s3)) ?s3)\<lparr>messageQueue := []\<rparr>) k
        = sent_on (transmit k (map Frame (messageQueue ?s3)) ?s3) k"
      by (rule sent_on_cong) simp
    also have "\<dots> = sent_on ?s3 k @ map Frame (messageQueue ?s3)"
      by (rule sent_on_transmit [OF kl])
    also have "sent_on ?s3 k = sent_on s k" by (rule sent_on_cong [OF s3(2)])
    finally show ?thesis by (simp only: s3(3))
  qed
  ultimately show ?thesis by simp
qed

lemma set_ready_ready: "ready s k = Some r \<Longrightarrow> ready (set_ready k r' s) k = Some r'"
  by (simp add: ready_def set_ready_def split: if_splits)

lemma set_ready_sent_on [simp]: "sent_on (set_ready k r s) j = sent_on s j"
  by (cases "k < length (sockets s)")
    (auto simp: sent_on_def set_ready_def nth_list_update list_update_beyond)

lemma set_ready_core [simp]:
  "socket (set_ready k r s) = socket s" "messageQueue (set_ready k r s) = messageQueue s"
  "heartbeatIntervalMs (set_ready k r s) = heartbeatIntervalMs s"
  "manualClose (set_ready k r s) = manualClose s"
  "reconnectAttempts (set_ready k r s) = reconnectAttempts s"
  "maxReconnectAttempts (set_ready k r s) = maxReconnectAttempts s"
  "length (sockets (set_ready k r s)) = length (sockets s)"
  by (simp_all add: set_ready_def)

lemma set_ready_channel [simp]: "channel (set_ready k r s) c = channel s c"
  by (simp add: channel_def)

subsection \<open>The outbound queue\<close>

lemma length_keep_last: "length (keep_last n xs) = min n (length xs)"
  by (simp add: keep_last_def)

lemma keep_last_append:
  "keep_last n (keep_last n xs @ ys) = keep_last n (xs @ ys)"
proof (cases "length xs \<le> n")
  case True
  then show ?thesis by (simp add: keep_last_def)
next
  case False
  then have "length xs - n + length ys = length xs + length ys - n" by simp
  then show ?thesis using False by (simp add: keep_last_def ac_simps)
qed

lemma enqueue_keep_last:
  assumes "0 < maxQueueSize s" "length (messageQueue s) \<le> maxQueueSize s"
  shows "enqueue m s = s\<lparr>messageQueue := keep_last (maxQueueSize s) (messageQueue s @ [m])\<rparr>"
proof (cases "length (messageQueue s) = maxQueueSize s")
  case True
  then have "messageQueue s \<noteq> []" using assms(1) by auto
  then have "tl (messageQueue s) @ [m] = drop 1 (messageQueue s @ [m])"
    by (cases "messageQueue s") simp_all
  then show ?thesis using True by (simp add: enqueue_def keep_last_def Let_def)
next
  case False
  then have "length (messageQueue s) < maxQueueSize s" using assms(2) by simp
  then show ?thesis by (simp add: enqueue_def keep_last_def Let_def)
qed

lemma socket_is_open_cong:
  "socket s' = socket s \<Longrightarrow> sockets s' = sockets s \<Longrightarrow> socket_is_open s' = socket_is_open s"
  by (cases "socket s") (simp_all add: socket_is_open_def ready_def)

lemma send_not_open:
  "\<not> socket_is_open s \<Longrightarrow> send ev dat s = Inr (enqueue (ev, dat) s)"
  by (auto simp: send_def socket_is_open_def Let_def split: option.splits)

lemma sends_not_open:
  assumes "\<not> socket_is_open s" "0 < maxQueueSize s" "length (messageQueue s) \<le> maxQueueSize s"
  shows "sends ms s = Inr (s\<lparr>messageQueue := keep_last (maxQueueSize s) (messageQueue s @ ms)\<rparr>)"
  using assms
proof (induction ms arbitrary: s)
  case Nil
  then show ?case by (simp add: keep_last_def)
next
  case (Cons m ms)
  let ?s1 = "s\<lparr>messageQueue := keep_last (maxQueueSize s) (messageQueue s @ [m])\<rparr>"
  have 1: "send (fst m) (snd m) s = Inr ?s1"
    using send_not_open [OF Cons.prems(1)] enqueue_keep_last [OF Cons.prems(2,3)] by simp
  have 2: "\<not> socket_is_open ?s1" "0 < maxQueueSize ?s1" "length (messageQueue ?s1) \<le> maxQueueSize ?s1"
    using Cons.prems socket_is_open_cong [of ?s1 s] by (simp_all add: length_keep_last)
  have "sends ms ?s1 = Inr (?s1\<lparr>messageQueue := keep_last (maxQueueSize ?s1) (messageQueue ?s1 @ ms)\<rparr>)"
    by (rule Cons.IH [OF 2])
  then show ?case using 1 keep_last_append [of "maxQueueSize s" "messageQueue s @ [m]" ms] by simp
qed

lemma transport_open_flush:
  assumes "ready s k = Some CONNECTING" "socket s = Some k"
  shows "\<exists>s'. fire (TransportOpen k now) s = Some (Inr s') \<and> messageQueue s' = [] \<and>
           sent_on s' k = sent_on s k @ map Frame (messageQueue s)"
proof -
  have "socket (set_ready k OPEN s) = Some k" "ready (set_ready k OPEN s) k = Some OPEN"
    using assms set_ready_ready [OF assms(1)] by simp_all
  from onopen_flushes [OF this, of now] show ?thesis
    using assms(1) by (simp add: fire_def)
qed


lemma enqueue_fields [simp]:
  "sockets (enqueue m s) = sockets s" "socket (enqueue m s) = socket s"
  "messageQueue (enqueue m s) =
     (if length (messageQueue s) \<ge> maxQueueSize s then tl (messageQueue s) else messageQueue s) @ [m]"
  by (simp_all add: enqueue_def Let_def)

subsection \<open>Connecting and the reconnection delay\<close>

lemma connect_open_idempotent: "socket_is_open s \<Longrightarrow> connect s = s"
  by (simp add: connect_def)

lemma jitter_bounds: "0 \<le> r \<Longrightarrow> r < 1 \<Longrightarrow> 300 \<le> jitter r \<and> jitter r \<le> 600"
  by (simp add: jitter_def)

lemma reconnectDelay_step:
  assumes "300 \<le> base" "0 \<le> r" "r < 1" "0 \<le> r'" "r' < 1" "0 < a"
  shows "reconnectDelay base a r < reconnectDelay base (Suc a) r'"
proof -
  obtain n where a: "a = Suc n" using assms(6) by (cases a) simp_all
  have p: "(1::real) \<le> 2 ^ n" by simp
  have "base * 1 \<le> base * 2 ^ n" using assms(1) p by (intro mult_left_mono) simp_all
  then have "300 \<le> base * 2 ^ n" using assms(1) by linarith
  moreover have "r * 300 < 300 + r' * 300" using assms(3,4) by simp
  ultimately show ?thesis by (simp add: reconnectDelay_def jitter_def a)
qed

lemma reconnectDelay_ceiling:
  assumes "0 \<le> base" "0 \<le> r" "r < 1" "a \<le> m"
  shows "reconnectDelay base a r \<le> base * 2 ^ (m - 1) + 600"
proof -
  have "(2::real) ^ (a - 1) \<le> 2 ^ (m - 1)" using assms(4) by (intro power_increasing) simp_all
  then have "base * 2 ^ (a - 1) \<le> base * 2 ^ (m - 1)" using assms(1) by (rule mult_left_mono)
  then show ?thesis using jitter_bounds [OF assms(2,3)] by (simp add: reconnectDelay_def)
qed

subsection \<open>Waiting for the connection\<close>
















lemma on_fields [simp]:
  "timers (on ev cb s) = timers s" "promises (on ev cb s) = promises s"
  "nextTimer (on ev cb s) = nextTimer s" "sockets (on ev cb s) = sockets s"
  "calls (on ev cb s) = calls s"
  by (simp_all add: on_def Let_def)









section \<open>Invariants of the event loop\<close>

subsection \<open>Identifiers in use\<close>

lemma ids_in_use_cong:
  assumes "listeners s' = listeners s" "promises s' = promises s" "timers s' = timers s"
    "nextTimer s' = nextTimer s" "nextPromise s' = nextPromise s"
  shows "ids_in_use s' = ids_in_use s"
  using assms by (simp add: ids_in_use_def)

lemma ids_below_mono: "ids_below np nt cb \<Longrightarrow> np \<le> np' \<Longrightarrow> nt \<le> nt' \<Longrightarrow> ids_below np' nt' cb"
  by (induction cb) auto

lemma ids_in_use_channel:
  "ids_in_use s \<Longrightarrow> cb \<in> set (channel s c) \<Longrightarrow> ids_below (nextPromise s) (nextTimer s) cb"
  by (cases "listeners s c") (auto simp: ids_in_use_def channel_def)

lemma ids_in_use_fresh_wait: "ids_in_use s \<Longrightarrow> fresh_wait s"
proof -
  assume a: "ids_in_use s"
  have 1: "promises s (nextPromise s) = None" using a by (simp add: ids_in_use_def)
  have 2: "WaitHandler (nextPromise s) (nextTimer s) \<notin> set (channel s ''connection'')"
    using ids_in_use_channel [OF a, of "WaitHandler (nextPromise s) (nextTimer s)" "''connection''"]
    by auto
  have 3: "nextTimer s \<notin> fst ` set (timers s)"
    using a unfolding ids_in_use_def by fastforce
  have 4: "listeners s ''connection'' \<noteq> Some []" using a by (auto simp: ids_in_use_def)
  show ?thesis using 1 2 3 4 by (simp add: fresh_wait_def)
qed

lemma ids_in_use_clearTimer: "ids_in_use s \<Longrightarrow> ids_in_use (clearTimer i s)"
  by (simp add: ids_in_use_def clearTimer_def)

lemma ids_in_use_resolve: "ids_in_use s \<Longrightarrow> p < nextPromise s \<Longrightarrow> ids_in_use (resolve p v s)"
  by (simp add: ids_in_use_def resolve_def)

lemma ids_in_use_off: "ids_in_use s \<Longrightarrow> ids_in_use (off ev cb s)"
  by (cases "listeners s ev") (auto simp: ids_in_use_def off_def Let_def)

lemma ids_in_use_on:
  "ids_in_use s \<Longrightarrow> ids_below (nextPromise s) (nextTimer s) cb \<Longrightarrow> ids_in_use (on ev cb s)"
  by (cases "listeners s ev") (auto simp: ids_in_use_def on_def channel_def set_add_def Let_def)

lemma ids_in_use_setTimer:
  assumes "ids_in_use s" "timer_ok (nextPromise s) t"
  shows "ids_in_use (setTimer t s)"
proof -
  have "ids_below (nextPromise s) (Suc (nextTimer s)) cb"
    if "listeners s c = Some cbs" "cb \<in> set cbs" for cb c cbs
  proof -
    have "ids_below (nextPromise s) (nextTimer s) cb"
      using assms(1) that unfolding ids_in_use_def by blast
    then show ?thesis by (rule ids_below_mono) simp_all
  qed
  then show ?thesis
    using assms by (auto simp: ids_in_use_def setTimer_def less_Suc_eq)
qed

lemma ids_in_use_invoke:
  "ids_in_use s \<Longrightarrow> ids_below (nextPromise s) (nextTimer s) cb \<Longrightarrow> ids_in_use (invoke cb d s)"
proof (induction cb arbitrary: s)
  case (Ext i)
  then show ?case using ids_in_use_cong [of "s\<lparr>calls := calls s @ [(i, d)]\<rparr>" s] by simp
next
  case (WaitHandler p t)
  let ?s1 = "off ''connection'' (WaitHandler p t) (clearTimer t s)"
  have 1: "ids_in_use ?s1"
    using WaitHandler.prems(1) by (intro ids_in_use_off ids_in_use_clearTimer)
  have "nextPromise ?s1 = nextPromise s"
    using same_core_off [of "clearTimer t s" "''connection''" "WaitHandler p t"]
    by (simp add: same_core_def clearTimer_def)
  then have "ids_in_use (resolve p True ?s1)"
    using 1 WaitHandler.prems(2) by (intro ids_in_use_resolve) simp_all
  then show ?case using WaitHandler.prems(1) by simp
next
  case (Once w ev cb)
  let ?s1 = "off ev (Once w ev cb) s"
  have 1: "ids_in_use ?s1" using Once.prems(1) by (rule ids_in_use_off)
  have "nextPromise ?s1 = nextPromise s" "nextTimer ?s1 = nextTimer s"
    using same_core_off [of s ev "Once w ev cb"] by (simp_all add: same_core_def)
  then have "ids_below (nextPromise ?s1) (nextTimer ?s1) cb" using Once.prems(2) by simp
  then show ?case using Once.IH [OF 1] by simp
qed

lemma ids_in_use_forEach:
  "ids_in_use s \<Longrightarrow> \<forall>cb \<in> set cbs. ids_below (nextPromise s) (nextTimer s) cb \<Longrightarrow>
     ids_in_use (forEach cbs d s)"
proof (induction cbs arbitrary: s)
  case Nil
  then show ?case by simp
next
  case (Cons cb cbs)
  have 1: "ids_in_use (invoke cb d s)" using Cons.prems by (intro ids_in_use_invoke) simp_all
  have "nextPromise (invoke cb d s) = nextPromise s" "nextTimer (invoke cb d s) = nextTimer s"
    using same_core_invoke [of s cb d] by (simp_all add: same_core_def)
  then have "\<forall>x \<in> set cbs. ids_below (nextPromise (invoke cb d s)) (nextTimer (invoke cb d s)) x"
    using Cons.prems(2) by simp
  then show ?case using Cons.IH [OF 1] by simp
qed

lemma ids_in_use_listeners:
  "ids_in_use s \<Longrightarrow> listeners s c = Some cbs \<Longrightarrow>
     \<forall>cb \<in> set cbs. ids_below (nextPromise s) (nextTimer s) cb"
  unfolding ids_in_use_def by blast

lemma ids_in_use_emit: "ids_in_use s \<Longrightarrow> ids_in_use (emit ev d s)"
proof -
  assume a: "ids_in_use s"
  let ?s1 = "case listeners s ev of Some cbs \<Rightarrow> forEach cbs d s | None \<Rightarrow> s"
  have 1: "ids_in_use ?s1"
    using a ids_in_use_listeners [OF a, of ev]
    by (cases "listeners s ev") (simp_all add: ids_in_use_forEach)
  show ?thesis
    unfolding emit_def Let_def
    using 1 ids_in_use_listeners [OF 1, of "''*''"]
    by (cases "listeners ?s1 ''*''") (simp_all add: ids_in_use_forEach)
qed

lemma ids_in_use_set_ready: "ids_in_use s \<Longrightarrow> ids_in_use (set_ready k r s)"
  by (simp add: ids_in_use_def set_ready_def)

lemma ids_in_use_socket_close: "ids_in_use s \<Longrightarrow> ids_in_use (socket_close k s)"
  by (simp add: socket_close_def ids_in_use_set_ready split: option.splits ready_state.splits)

lemma ids_in_use_connect: "ids_in_use s \<Longrightarrow> ids_in_use (connect s)"
  by (simp add: ids_in_use_def connect_def)

lemma ids_in_use_clearHeartbeat: "ids_in_use s \<Longrightarrow> ids_in_use (clearHeartbeat s)"
proof -
  assume a: "ids_in_use s"
  let ?s1 = "case heartbeatTimer s of Some i \<Rightarrow> clearTimer i s | None \<Rightarrow> s"
  let ?s2 = "case pongTimeout ?s1 of Some i \<Rightarrow> clearTimer i ?s1 | None \<Rightarrow> ?s1"
  have 1: "ids_in_use ?s1" using a by (cases "heartbeatTimer s") (simp_all add: ids_in_use_clearTimer)
  have 2: "ids_in_use ?s2" using 1 by (cases "pongTimeout ?s1") (simp_all add: ids_in_use_clearTimer)
  show ?thesis
    unfolding clearHeartbeat_def Let_def
    using 2 ids_in_use_cong [of "?s2\<lparr>heartbeatTimer := None, pongTimeout := None\<rparr>" ?s2] by simp
qed

lemma clearHeartbeat_counters [simp]:
  "nextPromise (clearHeartbeat s) = nextPromise s" "nextTimer (clearHeartbeat s) = nextTimer s"
  "heartbeatIntervalMs (clearHeartbeat s) = heartbeatIntervalMs s"
  by (simp_all add: clearHeartbeat_def clearTimer_def Let_def split: option.splits)

lemma ids_in_use_startHeartbeat: "ids_in_use s \<Longrightarrow> ids_in_use (startHeartbeat s)"
proof -
  assume a: "ids_in_use s"
  let ?s1 = "clearHeartbeat s"
  let ?s2 = "setTimer (HeartbeatInterval (heartbeatIntervalMs ?s1)) ?s1"
  have "ids_in_use ?s2"
    using a by (intro ids_in_use_setTimer ids_in_use_clearHeartbeat) (simp_all add: timer_ok_def)
  then show ?thesis
    unfolding startHeartbeat_def Let_def
    using ids_in_use_cong [of "?s2\<lparr>heartbeatTimer := Some (nextTimer ?s1)\<rparr>" ?s2] by simp
qed

lemma ids_in_use_transmit: "ids_in_use s \<Longrightarrow> ids_in_use (transmit k fs s)"
  by (simp add: ids_in_use_def transmit_def)

lemma ids_in_use_enqueue: "ids_in_use s \<Longrightarrow> ids_in_use (enqueue m s)"
  by (simp add: ids_in_use_def enqueue_def Let_def)

lemma ids_in_use_send: "ids_in_use s \<Longrightarrow> send ev dat s = Inr s' \<Longrightarrow> ids_in_use s'"
  by (auto simp: send_def socket_send_def Let_def ids_in_use_transmit ids_in_use_enqueue
      split: option.splits ready_state.splits if_splits)

lemma ids_in_use_flushQueue: "ids_in_use s \<Longrightarrow> flushQueue s = Inr s' \<Longrightarrow> ids_in_use s'"
proof (cases s rule: flushQueue_cases)
  case 1
  assume "ids_in_use s" "flushQueue s = Inr s'"
  then show ?thesis using 1 by simp
next
  case (2 k)
  assume a: "ids_in_use s" "flushQueue s = Inr s'"
  let ?s1 = "transmit k (map Frame (messageQueue s)) s"
  have "ids_in_use ?s1" using a(1) by (rule ids_in_use_transmit)
  then have "ids_in_use (?s1\<lparr>messageQueue := []\<rparr>)"
    using ids_in_use_cong [of "?s1\<lparr>messageQueue := []\<rparr>" ?s1] by simp
  then show ?thesis using 2(3) a(2) by simp
qed

lemma ids_in_use_heartbeat_tick: "ids_in_use s \<Longrightarrow> ids_in_use (heartbeat_tick now s)"
proof (cases "socket_is_open s")
  case False
  assume "ids_in_use s"
  moreover have "heartbeat_tick now s = s"
    using False by (auto simp: heartbeat_tick_def socket_is_open_def split: option.splits)
  ultimately show ?thesis by simp
next
  case True
  assume a: "ids_in_use s"
  from True obtain k where k: "socket s = Some k" "ready s k = Some OPEN"
    by (auto simp: socket_is_open_def split: option.splits)
  let ?s1 = "transmit k [Ping now] s"
  let ?s2 = "case pongTimeout ?s1 of Some i \<Rightarrow> clearTimer i ?s1 | None \<Rightarrow> ?s1"
  let ?s3 = "setTimer (PongDeadline (heartbeatTimeoutMs ?s2)) ?s2"
  have 1: "ids_in_use ?s1" using a by (rule ids_in_use_transmit)
  have 2: "ids_in_use ?s2" using 1 by (cases "pongTimeout ?s1") (simp_all add: ids_in_use_clearTimer)
  have 3: "ids_in_use ?s3" using 2 by (intro ids_in_use_setTimer) (simp_all add: timer_ok_def)
  have "heartbeat_tick now s = ?s3\<lparr>pongTimeout := Some (nextTimer ?s2)\<rparr>"
    using k by (simp add: heartbeat_tick_def socket_send_def Let_def)
  then show ?thesis
    using 3 ids_in_use_cong [of "?s3\<lparr>pongTimeout := Some (nextTimer ?s2)\<rparr>" ?s3] by simp
qed

lemma ids_in_use_pong_deadline: "ids_in_use s \<Longrightarrow> ids_in_use (pong_deadline s)"
  by (cases "socket s") (simp_all add: pong_deadline_def ids_in_use_socket_close)

lemma ids_in_use_handleReconnect: "ids_in_use s \<Longrightarrow> ids_in_use (handleReconnect r s)"
proof (cases "reconnectAttempts s \<ge> maxReconnectAttempts s")
  case True
  assume "ids_in_use s"
  then show ?thesis using True by (simp add: handleReconnect_def ids_in_use_emit)
next
  case False
  assume a: "ids_in_use s"
  let ?s2 = "s\<lparr>reconnectAttempts := reconnectAttempts s + 1, state := Reconnecting\<rparr>"
  have "ids_in_use ?s2" using a ids_in_use_cong [of ?s2 s] by simp
  then have "ids_in_use (setTimer (ReconnectTimer x) ?s2)" for x
    by (intro ids_in_use_setTimer) (simp_all add: timer_ok_def)
  then show ?thesis using False by (simp add: handleReconnect_def Let_def)
qed

lemma ids_in_use_onopen: "ids_in_use s \<Longrightarrow> onopen now s = Inr s' \<Longrightarrow> ids_in_use s'"
proof -
  assume a: "ids_in_use s" "onopen now s = Inr s'"
  let ?s1 = "s\<lparr>state := Connected, reconnectAttempts := 0, lastConnectedAt := Some now\<rparr>"
  have "ids_in_use ?s1" using a(1) ids_in_use_cong [of ?s1 s] by simp
  then have "ids_in_use (startHeartbeat (emit ''connection'' (Conn StatusConnected) ?s1))"
    by (intro ids_in_use_startHeartbeat ids_in_use_emit)
  then show ?thesis using a(2) ids_in_use_flushQueue by (simp add: onopen_def Let_def)
qed

lemma ids_in_use_onclose: "ids_in_use s \<Longrightarrow> ids_in_use (onclose now reason r s)"
proof -
  assume a: "ids_in_use s"
  let ?s1 = "clearHeartbeat (s\<lparr>state := Disconnected\<rparr>)"
  let ?s2 = "?s1\<lparr>lastDisconnectedAt := Some now\<rparr>"
  have "ids_in_use (s\<lparr>state := Disconnected\<rparr>)"
    using a ids_in_use_cong [of "s\<lparr>state := Disconnected\<rparr>" s] by simp
  then have "ids_in_use ?s1" by (rule ids_in_use_clearHeartbeat)
  then have "ids_in_use ?s2" using ids_in_use_cong [of ?s2 ?s1] by simp
  then have 3: "ids_in_use (emit ''connection'' (Conn (StatusDisconnected reason)) ?s2)"
    by (rule ids_in_use_emit)
  show ?thesis
    unfolding onclose_def Let_def using 3 ids_in_use_handleReconnect by simp
qed

lemma ids_in_use_onmessage: "ids_in_use s \<Longrightarrow> ids_in_use (onmessage dat s)"
  by (cases dat)
    (simp_all add: onmessage_def ids_in_use_emit ids_in_use_clearTimer split: option.splits)

lemma ids_in_use_disconnect: "ids_in_use s \<Longrightarrow> ids_in_use (disconnect s)"
proof -
  assume a: "ids_in_use s"
  let ?s1 = "clearHeartbeat (s\<lparr>manualClose := True\<rparr>)"
  let ?s2 = "case socket ?s1 of Some k \<Rightarrow> (socket_close k ?s1)\<lparr>socket := None\<rparr> | None \<Rightarrow> ?s1"
  have "ids_in_use (s\<lparr>manualClose := True\<rparr>)"
    using a ids_in_use_cong [of "s\<lparr>manualClose := True\<rparr>" s] by simp
  then have 1: "ids_in_use ?s1" by (rule ids_in_use_clearHeartbeat)
  have 2: "ids_in_use ?s2"
  proof (cases "socket ?s1")
    case None
    then show ?thesis using 1 by simp
  next
    case (Some k)
    have "ids_in_use (socket_close k ?s1)" using 1 by (rule ids_in_use_socket_close)
    then show ?thesis
      using Some ids_in_use_cong [of "(socket_close k ?s1)\<lparr>socket := None\<rparr>" "socket_close k ?s1"]
      by simp
  qed
  have "ids_in_use (?s2\<lparr>listeners := Map.empty, state := Disconnected\<rparr>)"
    using 2 by (simp add: ids_in_use_def)
  then show ?thesis by (simp add: disconnect_def Let_def)
qed

lemma ids_in_use_once: "ids_in_use s \<Longrightarrow> ids_in_use (once ev (Ext i) s)"
proof -
  assume a: "ids_in_use s"
  let ?s1 = "s\<lparr>nextWrapper := nextWrapper s + 1\<rparr>"
  have "ids_in_use ?s1" using a ids_in_use_cong [of ?s1 s] by simp
  then have "ids_in_use (on ev (Once (nextWrapper s) ev (Ext i)) ?s1)"
    by (rule ids_in_use_on) simp
  then show ?thesis by (simp add: once_def)
qed

lemma ids_in_use_wait: "ids_in_use s \<Longrightarrow> ids_in_use (snd (waitForConnection ms s))"
proof -
  assume a: "ids_in_use s"
  let ?p = "nextPromise s"
  let ?s0 = "s\<lparr>nextPromise := ?p + 1\<rparr>"
  have below: "ids_below (?p + 1) (nextTimer s) cb"
    if "listeners s c = Some cbs" "cb \<in> set cbs" for c cbs cb
  proof -
    have "ids_below ?p (nextTimer s) cb" using a that unfolding ids_in_use_def by blast
    then show ?thesis by (rule ids_below_mono) simp_all
  qed
  have tm: "timer_ok (?p + 1) (snd x)" if "x \<in> set (timers s)" for x
  proof -
    have "timer_ok ?p (snd x)" using a that unfolding ids_in_use_def by blast
    then show ?thesis by (cases "snd x") (simp_all add: timer_ok_def)
  qed
  have 0: "ids_in_use ?s0"
    using a below tm by (auto simp: ids_in_use_def)
  show ?thesis
  proof (cases "isConnected s")
    case True
    have "ids_in_use (resolve ?p True ?s0)" using 0 by (rule ids_in_use_resolve) simp
    then show ?thesis using True by (simp add: waitForConnection_def isConnected_def Let_def)
  next
    case False
    let ?s1 = "setTimer (WaitTimeout ?p ms) ?s0"
    have 1: "ids_in_use ?s1" using 0 by (rule ids_in_use_setTimer) (simp add: timer_ok_def)
    have "ids_in_use (on ''connection'' (WaitHandler ?p (nextTimer s)) ?s1)"
      using 1 by (rule ids_in_use_on) (simp add: setTimer_def)
    then show ?thesis using False by (simp add: waitForConnection_def isConnected_def Let_def)
  qed
qed

lemma ids_in_use_run_timer:
  assumes "ids_in_use s" "map_of (timers s) i = Some t"
  shows "ids_in_use (run_timer i t now s)"
proof -
  have c: "ids_in_use (clearTimer i s)" using assms(1) by (rule ids_in_use_clearTimer)
  show ?thesis
  proof (cases t)
    case (ReconnectTimer d)
    then show ?thesis using c by (simp add: run_timer_def ids_in_use_connect)
  next
    case (HeartbeatInterval ms)
    then show ?thesis using assms(1) by (simp add: run_timer_def ids_in_use_heartbeat_tick)
  next
    case (PongDeadline ms)
    then show ?thesis using c by (simp add: run_timer_def ids_in_use_pong_deadline)
  next
    case (WaitTimeout p ms)
    have "(i, t) \<in> set (timers s)" using assms(2) by (rule map_of_SomeD)
    then have "timer_ok (nextPromise s) t" using assms(1) unfolding ids_in_use_def by fastforce
    then have p: "p < nextPromise s" using WaitTimeout by (simp add: timer_ok_def)
    let ?s1 = "off ''connection'' (WaitHandler p i) (clearTimer i s)"
    have 1: "ids_in_use ?s1" using c by (rule ids_in_use_off)
    have "nextPromise ?s1 = nextPromise s"
      using same_core_off [of "clearTimer i s" "''connection''" "WaitHandler p i"]
      by (simp add: same_core_def clearTimer_def)
    then have "ids_in_use (resolve p False ?s1)" using 1 p by (intro ids_in_use_resolve) simp_all
    then show ?thesis using WaitTimeout by (simp add: run_timer_def wait_timeout_def)
  qed
qed

lemma ids_in_use_step:
  assumes "ids_in_use s" "fire e s = Some (Inr s')"
  shows "ids_in_use s'"
proof (cases e)
  case CallConnect
  then show ?thesis using assms ids_in_use_connect by (auto simp: fire_def)
next
  case CallDisconnect
  then show ?thesis using assms ids_in_use_disconnect by (auto simp: fire_def)
next
  case CallForceReconnect
  then show ?thesis
    using assms ids_in_use_connect ids_in_use_disconnect by (auto simp: fire_def forceReconnect_def)
next
  case (CallSend ev dat)
  then show ?thesis using assms ids_in_use_send by (auto simp: fire_def)
next
  case (CallOn ev i)
  then show ?thesis using assms ids_in_use_on [of s "Ext i" ev] by (auto simp: fire_def)
next
  case (CallOff ev cb)
  then show ?thesis using assms ids_in_use_off by (auto simp: fire_def)
next
  case (CallOnce ev i)
  then show ?thesis using assms ids_in_use_once by (auto simp: fire_def)
next
  case (CallWaitForConnection ms)
  then show ?thesis using assms ids_in_use_wait by (auto simp: fire_def)
next
  case (TransportOpen k now)
  then have "onopen now (set_ready k OPEN s) = Inr s'"
    using assms(2) by (simp add: fire_def split: if_splits)
  then show ?thesis using ids_in_use_onopen ids_in_use_set_ready [OF assms(1)] by blast
next
  case (TransportClose k now reason r)
  then have "s' = onclose now reason r (set_ready k CLOSED s)"
    using assms(2) by (simp add: fire_def split: if_splits)
  then show ?thesis using ids_in_use_onclose ids_in_use_set_ready [OF assms(1)] by simp
next
  case (TransportError k err)
  then show ?thesis
    using assms ids_in_use_emit by (auto simp: fire_def onerror_def split: if_splits)
next
  case (TransportMessage k dat)
  then show ?thesis
    using assms ids_in_use_onmessage by (auto simp: fire_def split: if_splits)
next
  case (TimerFires i now)
  then obtain t where "map_of (timers s) i = Some t" "s' = run_timer i t now s"
    using assms(2) by (auto simp: fire_def split: option.splits)
  then show ?thesis using ids_in_use_run_timer [OF assms(1)] by simp
qed

lemma ids_in_use_init: "ids_in_use init"
  by (simp add: ids_in_use_def init_def)

lemma ids_in_use_run:
  "ids_in_use s \<Longrightarrow> fires es s = Some (Inr s') \<Longrightarrow> ids_in_use s'"
proof (induction es arbitrary: s)
  case Nil
  then show ?case by simp
next
  case (Cons e es)
  from Cons.prems(2) obtain s1 where s1: "fire e s = Some (Inr s1)" "fires es s1 = Some (Inr s')"
    by (auto split: option.splits sum.splits)
  show ?case using Cons.IH [OF ids_in_use_step [OF Cons.prems(1) s1(1)] s1(2)] .
qed

lemma fresh_wait_reachable: "fires es init = Some (Inr s) \<Longrightarrow> fresh_wait s"
  using ids_in_use_run [OF ids_in_use_init] ids_in_use_fresh_wait by blast

subsection \<open>The queue bound\<close>

lemma queue_bounded_cong:
  "messageQueue s' = messageQueue s \<Longrightarrow> maxQueueSize s' = maxQueueSize s \<Longrightarrow>
     queue_bounded s' = queue_bounded s"
  by (simp add: queue_bounded_def)

lemma queue_bounded_enqueue: "queue_bounded s \<Longrightarrow> queue_bounded (enqueue m s)"
  by (auto simp: queue_bounded_def enqueue_def Let_def)

lemma queue_bounded_send: "queue_bounded s \<Longrightarrow> send ev dat s = Inr s' \<Longrightarrow> queue_bounded s'"
  by (auto simp: send_def socket_send_def Let_def queue_bounded_enqueue
      split: option.splits ready_state.splits if_splits)
    (simp_all add: queue_bounded_def transmit_def)

lemma queue_bounded_flushQueue: "queue_bounded s \<Longrightarrow> flushQueue s = Inr s' \<Longrightarrow> queue_bounded s'"
  by (cases s rule: flushQueue_cases) (auto simp: queue_bounded_def transmit_def)

lemma queue_fields_primitives [simp]:
  "messageQueue (clearTimer i s) = messageQueue s" "maxQueueSize (clearTimer i s) = maxQueueSize s"
  "messageQueue (setTimer t s) = messageQueue s" "maxQueueSize (setTimer t s) = maxQueueSize s"
  "messageQueue (resolve p v s) = messageQueue s" "maxQueueSize (resolve p v s) = maxQueueSize s"
  "messageQueue (off ev cb s) = messageQueue s" "maxQueueSize (off ev cb s) = maxQueueSize s"
  "messageQueue (on ev cb s) = messageQueue s" "maxQueueSize (on ev cb s) = maxQueueSize s"
  "maxQueueSize (set_ready k r s) = maxQueueSize s"
  "messageQueue (socket_close k s) = messageQueue s" "maxQueueSize (socket_close k s) = maxQueueSize s"
  "messageQueue (connect s) = messageQueue s" "maxQueueSize (connect s) = maxQueueSize s"
  "maxQueueSize (clearHeartbeat s) = maxQueueSize s"
  "maxQueueSize (startHeartbeat s) = maxQueueSize s"
  by (simp_all add: clearTimer_def setTimer_def resolve_def off_def on_def set_ready_def
      socket_close_def connect_def clearHeartbeat_def startHeartbeat_def Let_def
      split: option.splits ready_state.splits)

lemma queue_fields_handlers:
  "messageQueue (disconnect s) = messageQueue s \<and> maxQueueSize (disconnect s) = maxQueueSize s"
  "messageQueue (once ev cb s) = messageQueue s \<and> maxQueueSize (once ev cb s) = maxQueueSize s"
  "messageQueue (snd (waitForConnection ms s)) = messageQueue s \<and>
     maxQueueSize (snd (waitForConnection ms s)) = maxQueueSize s"
  "messageQueue (heartbeat_tick now s) = messageQueue s \<and>
     maxQueueSize (heartbeat_tick now s) = maxQueueSize s"
  "messageQueue (pong_deadline s) = messageQueue s \<and> maxQueueSize (pong_deadline s) = maxQueueSize s"
  "messageQueue (handleReconnect r s) = messageQueue s \<and>
     maxQueueSize (handleReconnect r s) = maxQueueSize s"
  "messageQueue (onerror e s) = messageQueue s \<and> maxQueueSize (onerror e s) = maxQueueSize s"
  "messageQueue (onmessage dat s) = messageQueue s \<and> maxQueueSize (onmessage dat s) = maxQueueSize s"
  "messageQueue (wait_timeout p t s) = messageQueue s \<and> maxQueueSize (wait_timeout p t s) = maxQueueSize s"
  by (simp_all add: disconnect_def once_def waitForConnection_def heartbeat_tick_def
      socket_send_def transmit_def pong_deadline_def handleReconnect_def onerror_def
      onmessage_def wait_timeout_def emit_core Let_def
      split: option.splits ready_state.splits inbound.splits)

lemma queue_fields_onclose:
  "messageQueue (onclose now reason r s) = messageQueue s \<and>
   maxQueueSize (onclose now reason r s) = maxQueueSize s"
  by (simp add: onclose_def Let_def queue_fields_handlers emit_core)

lemma queue_fields_run_timer:
  "messageQueue (run_timer i t now s) = messageQueue s \<and>
   maxQueueSize (run_timer i t now s) = maxQueueSize s"
  by (cases t) (simp_all add: run_timer_def queue_fields_handlers)

lemma queue_bounded_onopen: "queue_bounded s \<Longrightarrow> onopen now s = Inr s' \<Longrightarrow> queue_bounded s'"
proof -
  assume a: "queue_bounded s" "onopen now s = Inr s'"
  let ?s3 = "startHeartbeat (emit ''connection'' (Conn StatusConnected)
      (s\<lparr>state := Connected, reconnectAttempts := 0, lastConnectedAt := Some now\<rparr>))"
  have "queue_bounded ?s3" using a(1) by (simp add: queue_bounded_def emit_core)
  then show ?thesis using a(2) queue_bounded_flushQueue by (simp add: onopen_def Let_def)
qed

lemma queue_bounded_step:
  assumes "queue_bounded s" "fire e s = Some (Inr s')"
  shows "queue_bounded s' \<and> maxQueueSize s' = maxQueueSize s"
proof -
  have m: "maxQueueSize s' = maxQueueSize s"
  proof (cases e)
    case (CallSend ev dat)
    then show ?thesis
      using assms(2)
      by (auto simp: fire_def send_def socket_send_def transmit_def enqueue_def Let_def
          split: option.splits ready_state.splits if_splits)
  next
    case (TransportOpen k now)
    then have "onopen now (set_ready k OPEN s) = Inr s'"
      using assms(2) by (simp add: fire_def split: if_splits)
    then show ?thesis
      by (cases "startHeartbeat (emit ''connection'' (Conn StatusConnected)
            ((set_ready k OPEN s)\<lparr>state := Connected, reconnectAttempts := 0, lastConnectedAt := Some now\<rparr>))"
          rule: flushQueue_cases)
        (auto simp: onopen_def Let_def transmit_def emit_core)
  qed (use assms(2) in \<open>auto simp: fire_def forceReconnect_def queue_fields_handlers
        queue_fields_onclose queue_fields_run_timer split: if_splits option.splits\<close>)
  have "queue_bounded s'"
  proof (cases e)
    case (CallSend ev dat)
    then show ?thesis using assms queue_bounded_send by (auto simp: fire_def)
  next
    case (TransportOpen k now)
    then have "onopen now (set_ready k OPEN s) = Inr s'"
      using assms(2) by (simp add: fire_def split: if_splits)
    moreover have "queue_bounded (set_ready k OPEN s)"
      using assms(1) by (simp add: queue_bounded_def)
    ultimately show ?thesis using queue_bounded_onopen by blast
  qed (use assms in \<open>auto simp: fire_def forceReconnect_def queue_bounded_def queue_fields_handlers
        queue_fields_onclose queue_fields_run_timer split: if_splits option.splits\<close>)
  then show ?thesis using m by simp
qed

lemma queue_bounded_run:
  "queue_bounded s \<Longrightarrow> fires es s = Some (Inr s') \<Longrightarrow>
     queue_bounded s' \<and> maxQueueSize s' = maxQueueSize s"
proof (induction es arbitrary: s)
  case Nil
  then show ?case by simp
next
  case (Cons e es)
  from Cons.prems(2) obtain s1 where s1: "fire e s = Some (Inr s1)" "fires es s1 = Some (Inr s')"
    by (auto split: option.splits sum.splits)
  note 1 = queue_bounded_step [OF Cons.prems(1) s1(1)]
  from Cons.IH [OF _ s1(2)] 1 show ?case by simp
qed

lemma queue_bounded_reachable:
  "fires es init = Some (Inr s) \<Longrightarrow> length (messageQueue s) \<le> 100 \<and> maxQueueSize s = 100"
proof -
  assume a: "fires es init = Some (Inr s)"
  have "queue_bounded init" "maxQueueSize init = 100" by (simp_all add: queue_bounded_def init_def)
  from queue_bounded_run [OF this(1) a] this(2) show ?thesis by (simp add: queue_bounded_def)
qed

section \<open>The claims\<close>

text \<open>
  Claim C1, as stated, fails: \<^verbatim>\<open>handleReconnect\<close> applies no cap. With the cap of 30000 ms of
  the specification's scenario B, the delay armed after the sixth failed open (base 1000,
  \<^verbatim>\<open>Math.random()\<close> returning 0) is 32300 ms: it is not the capped delay, and it is not
  below cap + max-jitter.
\<close>

theorem reconnect_delay_cap_counterexample:
  "reconnectAttempts five_failures = 5 \<and> baseReconnectDelay five_failures = 1000 \<and>
   timers (after [TransportClose 5 60 ''net'' 0] five_failures) = [(6, ReconnectTimer 32300)] \<and>
   reconnectDelay 1000 6 0 = 32300 \<and>
   capped_delay 1000 30000 6 (jitter 0) = 30000 \<and>
   reconnectDelay 1000 6 0 \<noteq> capped_delay 1000 30000 6 (jitter 0) \<and>
   \<not> reconnectDelay 1000 6 0 < 30000 + 600"
  by (simp add: five_failures_def capped_delay_def model_defs)

text \<open>
  Claim C1, amended. While the retry ceiling has not been reached, \<^verbatim>\<open>handleReconnect\<close>
  increments the attempt counter and arms one timer whose delay is
  \<open>base * 2 ^ (attempts - 1) + jitter\<close>, with \<open>attempts\<close> the incremented counter and the
  jitter \<open>300 + 300 * random\<close> an addition between 300 and 600 ms. No cap is applied: the
  delay is bounded only through the retry ceiling, by
  \<open>base * 2 ^ (maxReconnectAttempts - 1) + 600\<close>. With a base of at least 300 ms the delay
  of the next failed open is strictly larger, whatever the two random draws.
\<close>

theorem reconnect_delay_uncapped:
  assumes "reconnectAttempts s < maxReconnectAttempts s" "0 \<le> r" "r < 1"
  shows "reconnectAttempts (handleReconnect r s) = reconnectAttempts s + 1 \<and>
     timers (handleReconnect r s) =
       timers s @ [(nextTimer s,
         ReconnectTimer (baseReconnectDelay s * 2 ^ (reconnectAttempts (handleReconnect r s) - 1) + jitter r))] \<and>
     300 \<le> jitter r \<and> jitter r \<le> 600 \<and>
     (0 \<le> baseReconnectDelay s \<longrightarrow>
        reconnectDelay (baseReconnectDelay s) (reconnectAttempts (handleReconnect r s)) r
          \<le> baseReconnectDelay s * 2 ^ (maxReconnectAttempts s - 1) + 600) \<and>
     (\<forall>r'. 300 \<le> baseReconnectDelay s \<and> 0 \<le> r' \<and> r' < 1 \<longrightarrow>
        reconnectDelay (baseReconnectDelay s) (reconnectAttempts (handleReconnect r s)) r
          < reconnectDelay (baseReconnectDelay s) (reconnectAttempts (handleReconnect r s) + 1) r')"
proof -
  have a: "reconnectAttempts (handleReconnect r s) = reconnectAttempts s + 1"
    using assms(1) by (simp add: handleReconnect_def setTimer_def Let_def)
  have t: "timers (handleReconnect r s) =
       timers s @ [(nextTimer s, ReconnectTimer (baseReconnectDelay s * 2 ^ reconnectAttempts s + jitter r))]"
    using assms(1) by (simp add: handleReconnect_def setTimer_def reconnectDelay_def Let_def)
  have c: "reconnectDelay (baseReconnectDelay s) (reconnectAttempts s + 1) r
          \<le> baseReconnectDelay s * 2 ^ (maxReconnectAttempts s - 1) + 600"
    if "0 \<le> baseReconnectDelay s"
    using reconnectDelay_ceiling [OF that assms(2,3), of "reconnectAttempts s + 1" "maxReconnectAttempts s"]
      assms(1) by simp
  have m: "reconnectDelay (baseReconnectDelay s) (reconnectAttempts s + 1) r
          < reconnectDelay (baseReconnectDelay s) (reconnectAttempts s + 1 + 1) r'"
    if "300 \<le> baseReconnectDelay s \<and> 0 \<le> r' \<and> r' < 1" for r'
    using reconnectDelay_step [of "baseReconnectDelay s" r r' "reconnectAttempts s + 1"] that assms(2,3)
    by simp
  show ?thesis
    using a t c m jitter_bounds [OF assms(2,3)] by simp
qed

theorem reconnect_delay_uncapped_witness:
  "reconnectAttempts five_failures = 5 \<and> maxReconnectAttempts five_failures = 8 \<and>
   baseReconnectDelay five_failures = 1000 \<and>
   reconnectAttempts (handleReconnect (1/2) five_failures) = 6 \<and>
   timers (handleReconnect (1/2) five_failures) = [(6, ReconnectTimer 32450)] \<and>
   reconnectDelay 1000 6 (1/2) \<le> 128600 \<and>
   reconnectDelay 1000 6 (1/2) < reconnectDelay 1000 7 0"
proof -
  have v: "reconnectAttempts five_failures = 5" "maxReconnectAttempts five_failures = 8"
    "baseReconnectDelay five_failures = 1000" "timers five_failures = []"
    "nextTimer five_failures = 6"
    by (simp_all add: five_failures_def model_defs)
  have h: "reconnectAttempts five_failures < maxReconnectAttempts five_failures"
    "(0::real) \<le> 1/2" "(1/2::real) < 1"
    using v by simp_all
  note t = reconnect_delay_uncapped [OF h]
  have a: "reconnectAttempts (handleReconnect (1/2) five_failures) = 6" using t v by simp
  have 1: "timers (handleReconnect (1/2) five_failures) = [(6, ReconnectTimer 32450)]"
    using t v a by (simp add: jitter_def)
  have 2: "reconnectDelay 1000 6 (1/2) \<le> 128600" using t v a by simp
  have 3: "reconnectDelay 1000 6 (1/2) < reconnectDelay 1000 7 0" using t v a by simp
  show ?thesis using v(1-3) a 1 2 3 by simp
qed

text \<open>
  Claim C2 fails on the code. \<^verbatim>\<open>disconnect\<close> cancels the heartbeat timers and closes the
  transport, but it leaves the four callbacks on the old socket and a pending reconnection
  timer armed. After \<^verbatim>\<open>forceReconnect\<close> the new transport is installed and open, the
  service is \<open>Connected\<close> with its heartbeat armed; the late \<^verbatim>\<open>close\<close> event of the old
  transport then sets the state to \<open>Reconnecting\<close>, cancels the heartbeat of the new
  connection, counts a failed attempt and arms a reconnection timer. And a retry that was
  pending when \<^verbatim>\<open>disconnect\<close> was called still fires afterwards and connects again.
\<close>

theorem late_close_mutates_state:
  "socket reconnected = Some 1 \<and> ready reconnected 0 = Some CLOSING \<and>
   ready reconnected 1 = Some OPEN \<and> state reconnected = Connected \<and>
   reconnectAttempts reconnected = 0 \<and> heartbeatTimer reconnected = Some 2 \<and>
   timers reconnected = [(2, HeartbeatInterval 15000)] \<and>
   socket late_close = Some 1 \<and> ready late_close 1 = Some OPEN \<and>
   state late_close = Reconnecting \<and> reconnectAttempts late_close = 1 \<and>
   heartbeatTimer late_close = None \<and> timers late_close = [(3, ReconnectTimer 1300)] \<and>
   lastDisconnectedAt late_close = Some 9 \<and>
   state closed_by_operator = Disconnected \<and> manualClose closed_by_operator \<and>
   socket closed_by_operator = None \<and> timers closed_by_operator = [(1, ReconnectTimer 1300)] \<and>
   state retry_after_close = Connecting \<and> manualClose retry_after_close = False \<and>
   socket retry_after_close = Some 1 \<and> ready retry_after_close 1 = Some CONNECTING"
  by (simp add: late_close_def reconnected_def retry_after_close_def closed_by_operator_def
      model_defs)

text \<open>
  Claim C3 fails on the code for the state \<open>Connecting\<close>. The guard of \<^verbatim>\<open>connect\<close> returns
  early only when the socket is open; a second call while the first transport is still
  connecting constructs a second transport and leaves the first one live.
\<close>

theorem connect_twice_two_transports:
  "state (after [CallConnect] init) = Connecting \<and> length (sockets (after [CallConnect] init)) = 1 \<and>
   state connect_twice = Connecting \<and> length (sockets connect_twice) = 2 \<and>
   live_sockets connect_twice = 2 \<and> socket connect_twice = Some 1 \<and>
   ready connect_twice 0 = Some CONNECTING \<and> ready connect_twice 1 = Some CONNECTING"
  by (simp add: connect_twice_def model_defs)

text \<open>
  Claim C4, as stated, fails for \<^verbatim>\<open>ping\<close>: \<^verbatim>\<open>onmessage\<close> intercepts the type \<^verbatim>\<open>pong\<close>
  only. With a \<^verbatim>\<open>"*"\<close> subscriber registered, an inbound frame of type \<^verbatim>\<open>ping\<close> is handed
  to the dispatcher and the subscriber is invoked with it.
\<close>

theorem inbound_ping_counterexample:
  "channel subscribed ''*'' = [Ext 1] \<and> ready subscribed 0 = Some OPEN \<and>
   fire (TransportMessage 0 (Parsed (Some ''ping'') (JObj [(''type'', JStr ''ping'')]))) subscribed
     = Some (Inr (onmessage (Parsed (Some ''ping'') (JObj [(''type'', JStr ''ping'')])) subscribed)) \<and>
   calls (onmessage (Parsed (Some ''ping'') (JObj [(''type'', JStr ''ping'')])) subscribed)
     = calls subscribed @ [(1, Wrapped ''ping'' (Msg (JObj [(''type'', JStr ''ping'')])))]"
  by (simp add: subscribed_def model_defs)

text \<open>
  Claim C4, amended. An inbound frame of type \<^verbatim>\<open>pong\<close> is consumed by the service: it
  cancels the pending pong deadline and is never handed to the dispatcher, so no listener,
  a \<^verbatim>\<open>"*"\<close> listener included, is invoked, and the registry and the promises are as before.
  A frame of any other type, \<^verbatim>\<open>ping\<close> included, is dispatched: every subscriber of the
  channel of its type receives the message and every subscriber of \<^verbatim>\<open>"*"\<close> receives it
  wrapped with its type.
\<close>

theorem pong_consumed_other_types_dispatched:
  "(type_of t = ''pong'' \<longrightarrow>
      calls (onmessage (Parsed t msg) s) = calls s \<and>
      listeners (onmessage (Parsed t msg) s) = listeners s \<and>
      promises (onmessage (Parsed t msg) s) = promises s \<and>
      (\<forall>i. pongTimeout s = Some i \<longrightarrow> i \<notin> fst ` set (timers (onmessage (Parsed t msg) s)))) \<and>
   (type_of t \<noteq> ''pong'' \<longrightarrow>
      (\<forall>i. Ext i \<in> set (channel s (type_of t)) \<longrightarrow>
         (i, Msg msg) \<in> set (calls (onmessage (Parsed t msg) s))) \<and>
      (\<forall>i. Ext i \<in> set (channel s ''*'') \<longrightarrow>
         (i, Wrapped (type_of t) (Msg msg)) \<in> set (calls (onmessage (Parsed t msg) s))))"
proof (cases "type_of t = ''pong''")
  case True
  then have "onmessage (Parsed t msg) s = (case pongTimeout s of Some i \<Rightarrow> clearTimer i s | None \<Rightarrow> s)"
    by (simp add: onmessage_def)
  then show ?thesis
    using True by (cases "pongTimeout s") (auto simp: clearTimer_def)
next
  case False
  then have "onmessage (Parsed t msg) s = emit (type_of t) (Msg msg) s"
    by (simp add: onmessage_def)
  then show ?thesis
    using False emit_calls_event [of _ s "type_of t" "Msg msg"]
      emit_calls_star [of _ s "type_of t" "Msg msg"] by simp
qed

theorem pong_consumed_other_types_dispatched_witness:
  "type_of (Some ''pong'') = ''pong'' \<and>
   calls (onmessage (Parsed (Some ''pong'') JNull) subscribed) = calls subscribed \<and>
   type_of (Some ''ping'') = ''ping'' \<and> Ext 1 \<in> set (channel subscribed ''*'') \<and>
   (1, Wrapped ''ping'' (Msg JNull)) \<in> set (calls (onmessage (Parsed (Some ''ping'') JNull) subscribed)) \<and>
   type_of (Some ''alert'') = ''alert'' \<and>
   (1, Wrapped ''alert'' (Msg JNull)) \<in> set (calls (onmessage (Parsed (Some ''alert'') JNull) subscribed))"
proof -
  have t: "type_of (Some ''pong'') = ''pong''" "type_of (Some ''ping'') = ''ping''"
    "type_of (Some ''alert'') = ''alert''"
    by (simp_all add: type_of_def)
  have c: "Ext 1 \<in> set (channel subscribed ''*'')"
    by (simp add: subscribed_def model_defs)
  have 1: "calls (onmessage (Parsed (Some ''pong'') JNull) subscribed) = calls subscribed"
    using pong_consumed_other_types_dispatched [of "Some ''pong''" JNull subscribed] t(1) by simp
  have 2: "(1, Wrapped ''ping'' (Msg JNull)) \<in> set (calls (onmessage (Parsed (Some ''ping'') JNull) subscribed))"
    using pong_consumed_other_types_dispatched [of "Some ''ping''" JNull subscribed] t(2) c by simp
  have 3: "(1, Wrapped ''alert'' (Msg JNull)) \<in> set (calls (onmessage (Parsed (Some ''alert'') JNull) subscribed))"
    using pong_consumed_other_types_dispatched [of "Some ''alert''" JNull subscribed] t(3) c by simp
  show ?thesis using t c 1 2 3 by simp
qed

text \<open>
  Claim C5. With \<open>N\<close> the queue bound (at least one) and the transport not open, \<open>N + k\<close>
  successive calls of \<^verbatim>\<open>send\<close> all return; the queue then holds exactly the last \<open>N\<close>
  messages in the order they were sent, and after each of the calls its length is at most
  \<open>N\<close>. When the pending transport of the service then opens, the queue is emptied and
  exactly those \<open>N\<close> messages are transmitted on it, in the same order. (In every state
  the event loop reaches from the initial one the bound is 100 and the queue is within
  it: \<open>queue_bounded_reachable\<close>.)
\<close>

theorem queue_keeps_last_N_and_flushes_in_order:
  assumes "\<not> socket_is_open s" "0 < maxQueueSize s"
    "length (messageQueue s) \<le> maxQueueSize s" "length ms = maxQueueSize s + k"
  shows "\<exists>s1. sends ms s = Inr s1 \<and> messageQueue s1 = drop k ms \<and>
      length (messageQueue s1) = maxQueueSize s \<and>
      (\<forall>n. \<exists>s2. sends (take n ms) s = Inr s2 \<and> length (messageQueue s2) \<le> maxQueueSize s) \<and>
      (\<forall>j now. socket s1 = Some j \<and> ready s1 j = Some CONNECTING \<longrightarrow>
         (\<exists>s2. fire (TransportOpen j now) s1 = Some (Inr s2) \<and> messageQueue s2 = [] \<and>
            sent_on s2 j = sent_on s1 j @ map Frame (drop k ms)))"
proof -
  let ?N = "maxQueueSize s"
  let ?s1 = "s\<lparr>messageQueue := keep_last ?N (messageQueue s @ ms)\<rparr>"
  have run: "sends ms s = Inr ?s1" by (rule sends_not_open [OF assms(1-3)])
  have "length (messageQueue s @ ms) - ?N = length (messageQueue s) + k"
    using assms(4) by simp
  then have q: "messageQueue ?s1 = drop k ms" by (simp add: keep_last_def)
  have len: "length (messageQueue ?s1) = ?N" using assms(4) by (simp add: q)
  have bounded: "\<exists>s2. sends (take n ms) s = Inr s2 \<and> length (messageQueue s2) \<le> ?N" for n
    using sends_not_open [OF assms(1-3), of "take n ms"] by (simp add: length_keep_last)
  have flush: "\<exists>s2. fire (TransportOpen j now) ?s1 = Some (Inr s2) \<and> messageQueue s2 = [] \<and>
            sent_on s2 j = sent_on ?s1 j @ map Frame (drop k ms)"
    if "socket ?s1 = Some j \<and> ready ?s1 j = Some CONNECTING" for j now
  proof -
    have c: "ready ?s1 j = Some CONNECTING" and j: "socket ?s1 = Some j" using that by simp_all
    from transport_open_flush [OF c j, of now] show ?thesis by (simp only: q)
  qed
  show ?thesis
    using run q len bounded flush by (intro exI [of _ ?s1]) blast
qed

theorem queue_keeps_last_N_and_flushes_in_order_witness:
  "socket_is_open scenario_c = False \<and> maxQueueSize scenario_c = 1 \<and>
   messageQueue scenario_c = [] \<and>
   (\<exists>s1. sends [(''alert'', JObj [(''id'', JNum 1)]), (''alert'', JObj [(''id'', JNum 2)])] scenario_c
            = Inr s1 \<and>
      messageQueue s1 = [(''alert'', JObj [(''id'', JNum 2)])] \<and>
      (\<exists>s2. fire (TransportOpen 0 7) s1 = Some (Inr s2) \<and> messageQueue s2 = [] \<and>
         sent_on s2 0 = [Frame (''alert'', JObj [(''id'', JNum 2)])]))"
proof -
  let ?ms = "[(''alert'', JObj [(''id'', JNum 1)]), (''alert'', JObj [(''id'', JNum 2)])]"
  have h: "\<not> socket_is_open scenario_c" "0 < maxQueueSize scenario_c"
    "length (messageQueue scenario_c) \<le> maxQueueSize scenario_c"
    "length ?ms = maxQueueSize scenario_c + 1"
    by (simp_all add: scenario_c_def model_defs)
  have v: "maxQueueSize scenario_c = 1" "messageQueue scenario_c = []"
    by (simp_all add: scenario_c_def model_defs)
  have "\<exists>s1. sends ?ms scenario_c = Inr s1 \<and> socket s1 = Some 0 \<and>
      ready s1 0 = Some CONNECTING \<and> sent_on s1 0 = []"
    by (simp add: scenario_c_def model_defs)
  then obtain s1 where s1: "sends ?ms scenario_c = Inr s1" "socket s1 = Some 0"
    "ready s1 0 = Some CONNECTING" "sent_on s1 0 = []"
    by blast
  from queue_keeps_last_N_and_flushes_in_order [OF h] s1(1)
  have t: "messageQueue s1 = drop 1 ?ms"
    "\<forall>j now. socket s1 = Some j \<and> ready s1 j = Some CONNECTING \<longrightarrow>
         (\<exists>s2. fire (TransportOpen j now) s1 = Some (Inr s2) \<and> messageQueue s2 = [] \<and>
            sent_on s2 j = sent_on s1 j @ map Frame (drop 1 ?ms))"
    by auto
  from t(2) s1(2,3) obtain s2 where s2: "fire (TransportOpen 0 7) s1 = Some (Inr s2)"
    "messageQueue s2 = []" "sent_on s2 0 = sent_on s1 0 @ map Frame (drop 1 ?ms)"
    by blast
  have "sent_on s2 0 = [Frame (''alert'', JObj [(''id'', JNum 2)])]"
    using s2(3) s1(4) by simp
  moreover have "messageQueue s1 = [(''alert'', JObj [(''id'', JNum 2)])]"
    using t(1) by simp
  ultimately show ?thesis
    using h(1) v s1(1) s2(1,2) by (auto simp del: sends.simps)
qed










text \<open>
  Claim C10. \<^verbatim>\<open>forceReconnect\<close> leaves the listener registry empty, and as long as nobody
  registers again (no call of \<^verbatim>\<open>on\<close>, \<^verbatim>\<open>once\<close> or \<^verbatim>\<open>waitForConnection\<close>), no event of
  the new connection, the opening of the new transport included, invokes any listener:
  the registry stays empty and the log of invoked callbacks stays as it was.
\<close>

theorem forceReconnect_drops_subscribers:
  "listeners (forceReconnect s) = Map.empty \<and>
   (\<forall>es s'. list_all (\<lambda>e. \<not> registers e) es \<and> fires es (forceReconnect s) = Some (Inr s') \<longrightarrow>
      listeners s' = Map.empty \<and> calls s' = calls s)"
proof (intro conjI allI impI)
  show l: "listeners (forceReconnect s) = Map.empty"
    by (simp add: forceReconnect_def)
  fix es s'
  assume a: "list_all (\<lambda>e. \<not> registers e) es \<and> fires es (forceReconnect s) = Some (Inr s')"
  have "listeners s' = Map.empty \<and> calls s' = calls (forceReconnect s)"
    using quiet_run [OF l, of es s'] a by simp
  then show "listeners s' = Map.empty" and "calls s' = calls s"
    by (simp_all add: forceReconnect_def)
qed

theorem forceReconnect_drops_subscribers_witness:
  "channel subscribed ''connection'' = [Ext 0] \<and> channel subscribed ''*'' = [Ext 1] \<and>
   calls subscribed = [(0, Conn StatusConnected), (1, Wrapped ''connection'' (Conn StatusConnected))] \<and>
   (\<exists>q. fires [TransportOpen 1 9, TransportMessage 1 (Parsed (Some ''alert'') (JObj [(''id'', JNum 1)]))]
          (forceReconnect subscribed) = Some (Inr q) \<and>
        state q = Connected \<and> listeners q = Map.empty \<and>
        calls q = [(0, Conn StatusConnected), (1, Wrapped ''connection'' (Conn StatusConnected))])"
proof -
  let ?es = "[TransportOpen 1 9, TransportMessage 1 (Parsed (Some ''alert'') (JObj [(''id'', JNum 1)]))]"
  have v: "channel subscribed ''connection'' = [Ext 0]" "channel subscribed ''*'' = [Ext 1]"
    "calls subscribed = [(0, Conn StatusConnected), (1, Wrapped ''connection'' (Conn StatusConnected))]"
    by (simp_all add: subscribed_def model_defs)
  have "\<exists>q. fires ?es (forceReconnect subscribed) = Some (Inr q) \<and> state q = Connected"
    by (simp add: subscribed_def model_defs)
  then obtain q where q: "fires ?es (forceReconnect subscribed) = Some (Inr q)" "state q = Connected"
    by blast
  have "list_all (\<lambda>e. \<not> registers e) ?es" by (simp add: registers_def)
  with forceReconnect_drops_subscribers [of subscribed] q(1)
  have "listeners q = Map.empty \<and> calls q = calls subscribed" by blast
  then show ?thesis using v q by (auto simp del: fires.simps)
qed

end
